theory Spec2Isabelle
  imports Complex_Main "HOL-Library.Multiset"
begin

section \<open>Data model (src/types.ts)\<close>

text \<open>
  The three interfaces of \<^verbatim>\<open>types.ts\<close>. A TypeScript \<^verbatim>\<open>number\<close> is modelled as a
  \<^typ>\<open>real\<close>. The computation is embedded twice: first with exact arithmetic, then, in
  the section on rounding, with the result of every arithmetic operation rounded, as it
  is for doubles. \<^verbatim>\<open>NaN\<close> and the infinities are outside both. The field \<^verbatim>\<open>id\<close> of a
  participant and of an expense and the field \<^verbatim>\<open>amount\<close> of an expense carry a suffix,
  since a record field is a constant of the theory.
\<close>

record participant =
  id_p :: string
  name_p :: string

record expense =
  id_e :: string
  payerId :: string
  amount_e :: real
  description :: "string option"

record settlement =
  fromId :: string
  toId :: string
  amount :: real

text \<open>
  The objects of the array \<^verbatim>\<open>balances\<close>: a participant spread into a fresh object
  together with the fields \<^verbatim>\<open>paid\<close> and \<^verbatim>\<open>balance\<close>.
\<close>

record entry = participant +
  paid :: real
  balance :: real

section \<open>The settlement computation (the \<^verbatim>\<open>useMemo\<close> body of \<^verbatim>\<open>settlements\<close>), exact arithmetic\<close>

text \<open>\<^verbatim>\<open>expenses.reduce((sum, e) => sum + e.amount, 0)\<close>\<close>

definition totalSpent :: "expense list \<Rightarrow> real" where
  "totalSpent expenses = foldl (\<lambda>sum e. sum + amount_e e) 0 expenses"

text \<open>\<^verbatim>\<open>totalSpent / participants.length\<close>; only evaluated behind the guard on an empty list.\<close>

definition average :: "participant list \<Rightarrow> expense list \<Rightarrow> real" where
  "average participants expenses = totalSpent expenses / real (length participants)"

text \<open>\<^verbatim>\<open>expenses.filter(e => e.payerId === p.id).reduce((sum, e) => sum + e.amount, 0)\<close>\<close>

definition paidBy :: "expense list \<Rightarrow> string \<Rightarrow> real" where
  "paidBy expenses i = foldl (\<lambda>sum e. sum + amount_e e) 0 (filter (\<lambda>e. payerId e = i) expenses)"

text \<open>The balance \<^verbatim>\<open>paid - average\<close> of the participant with a given id.\<close>

definition balanceOf :: "participant list \<Rightarrow> expense list \<Rightarrow> string \<Rightarrow> real" where
  "balanceOf participants expenses i = paidBy expenses i - average participants expenses"

text \<open>\<^verbatim>\<open>participants.map(p => ({...p, paid, balance: paid - average}))\<close>; the later
  \<^verbatim>\<open>balances.map(b => ({...b}))\<close> copies each object and changes no value.\<close>

definition initialBalances :: "participant list \<Rightarrow> expense list \<Rightarrow> entry list" where
  "initialBalances participants expenses =
     map (\<lambda>p. \<lparr>id_p = id_p p, name_p = name_p p,
                paid = paidBy expenses (id_p p),
                balance = balanceOf participants expenses (id_p p)\<rparr>) participants"

text \<open>The mutable variables of the loop.\<close>

record loop_state =
  loopCount :: nat
  balances :: "entry list"
  results :: "settlement list"

text \<open>\<^verbatim>\<open>balances[0]\<close> and \<^verbatim>\<open>balances[balances.length - 1]\<close>. They denote the same object
  when the array has one element.\<close>

definition debtor :: "entry list \<Rightarrow> entry" where
  "debtor bs = bs ! 0"

definition creditor :: "entry list \<Rightarrow> entry" where
  "creditor bs = bs ! (length bs - 1)"

text \<open>The test in front of \<^verbatim>\<open>break\<close>.\<close>

definition settled :: "entry list \<Rightarrow> bool" where
  "settled bs \<longleftrightarrow> \<bar>balance (debtor bs)\<bar> < 1 \<and> \<bar>balance (creditor bs)\<bar> < 1"

text \<open>\<^verbatim>\<open>Math.min(Math.abs(debtor.balance), creditor.balance)\<close>\<close>

definition transferAmount :: "entry list \<Rightarrow> real" where
  "transferAmount bs = min \<bar>balance (debtor bs)\<bar> (balance (creditor bs))"

text \<open>The guarded \<^verbatim>\<open>results.push\<close>.\<close>

definition emit :: "settlement list \<Rightarrow> entry list \<Rightarrow> real \<Rightarrow> settlement list" where
  "emit rs bs a =
     (if a > 0 then rs @ [\<lparr>fromId = id_p (debtor bs), toId = id_p (creditor bs), amount = a\<rparr>]
      else rs)"

text \<open>\<^verbatim>\<open>debtor.balance += amount; creditor.balance -= amount\<close>: two writes through
  references into the array, the second reading what the first wrote when both
  references are the same object.\<close>

definition transfer :: "entry list \<Rightarrow> real \<Rightarrow> entry list" where
  "transfer bs a =
     (let bs1 = bs[0 := (bs ! 0)\<lparr>balance := balance (bs ! 0) + a\<rparr>];
          n = length bs1 - 1
      in bs1[n := (bs1 ! n)\<lparr>balance := balance (bs1 ! n) - a\<rparr>])"

text \<open>One full pass through the loop body that does not leave at \<^verbatim>\<open>break\<close>.\<close>

definition nextState :: "loop_state \<Rightarrow> loop_state" where
  "nextState st =
     (let bs = sort_key balance (balances st);
          a = transferAmount bs
      in \<lparr>loopCount = loopCount st + 1, balances = transfer bs a,
          results = emit (results st) bs a\<rparr>)"

text \<open>Reading \<^verbatim>\<open>debtor.balance\<close> on an empty array is a \<^verbatim>\<open>TypeError\<close> in JavaScript.\<close>

datatype error = TypeError

text \<open>
  \<^verbatim>\<open>while (loopCount < 100) { balances.sort(...); ...; if (...) break; ...; loopCount++ }\<close>.
  The comparator \<^verbatim>\<open>(a, b) => a.balance - b.balance\<close> sorts ascending and
  \<^verbatim>\<open>Array.prototype.sort\<close> is stable, as \<^const>\<open>sort_key\<close> is. The sort is in place, so
  the array stays sorted when the loop leaves at \<^verbatim>\<open>break\<close>.
\<close>

function loop :: "loop_state \<Rightarrow> error + loop_state" where
  "loop st =
     (if loopCount st < 100 then
        (let bs = sort_key balance (balances st) in
         if bs = [] then Inl TypeError
         else if settled bs then Inr (st\<lparr>balances := bs\<rparr>)
         else loop (nextState st))
      else Inr st)"
  by pat_completeness auto
termination
  by (relation "measure (\<lambda>st. 100 - loopCount st)") (auto simp: nextState_def Let_def)

declare loop.simps [simp del]

definition initialState :: "participant list \<Rightarrow> expense list \<Rightarrow> loop_state" where
  "initialState participants expenses =
     \<lparr>loopCount = 0, balances = initialBalances participants expenses, results = []\<rparr>"

definition computeSettlements :: "participant list \<Rightarrow> expense list \<Rightarrow> error + settlement list" where
  "computeSettlements participants expenses =
     (if length participants = 0 then Inr []
      else case loop (initialState participants expenses) of
             Inl e \<Rightarrow> Inl e
           | Inr st \<Rightarrow> Inr (results st))"

section \<open>Vocabulary of the properties\<close>

text \<open>
  The loop states in which a pass got beyond the \<^verbatim>\<open>break\<close> test, in order, each with
  its array as sorted by that pass: the moments at which a settlement can be pushed.
  The recursion is that of \<^const>\<open>loop\<close>.
\<close>

function iterations :: "loop_state \<Rightarrow> loop_state list" where
  "iterations st =
     (if loopCount st < 100 then
        (let bs = sort_key balance (balances st) in
         if bs = [] then []
         else if settled bs then []
         else st\<lparr>balances := bs\<rparr> # iterations (nextState st))
      else [])"
  by pat_completeness auto
termination
  by (relation "measure (\<lambda>st. 100 - loopCount st)") (auto simp: nextState_def Let_def)

declare iterations.simps [simp del]

text \<open>What the pass starting in a state (with sorted array) pushes: one settlement or none.\<close>

definition emitted :: "loop_state \<Rightarrow> settlement list" where
  "emitted it = emit [] (balances it) (transferAmount (balances it))"

text \<open>The loop left at \<^verbatim>\<open>break\<close>: it returned with the counter still below the cap.\<close>

definition converged :: "participant list \<Rightarrow> expense list \<Rightarrow> bool" where
  "converged participants expenses \<longleftrightarrow>
     participants \<noteq> [] \<and>
     (case loop (initialState participants expenses) of
        Inl e \<Rightarrow> False
      | Inr st \<Rightarrow> loopCount st < 100)"

text \<open>
  Applying a settlement to balances given per participant id: the amount is added to
  the balance of \<^verbatim>\<open>fromId\<close> and then subtracted from the balance of \<^verbatim>\<open>toId\<close>.
\<close>

definition applySettlement :: "settlement \<Rightarrow> (string \<Rightarrow> real) \<Rightarrow> (string \<Rightarrow> real)" where
  "applySettlement s b =
     (let b1 = b(fromId s := b (fromId s) + amount s)
      in b1(toId s := b1 (toId s) - amount s))"

definition applyAll :: "settlement list \<Rightarrow> (string \<Rightarrow> real) \<Rightarrow> (string \<Rightarrow> real)" where
  "applyAll rs b = fold applySettlement rs b"

text \<open>Conditions on the input that the computation itself never checks.\<close>

definition uniqueIds :: "participant list \<Rightarrow> bool" where
  "uniqueIds participants \<longleftrightarrow> distinct (map id_p participants)"

definition nonNegativeAmounts :: "expense list \<Rightarrow> bool" where
  "nonNegativeAmounts expenses \<longleftrightarrow> list_all (\<lambda>e. 0 \<le> amount_e e) expenses"

definition knownPayers :: "participant list \<Rightarrow> expense list \<Rightarrow> bool" where
  "knownPayers participants expenses \<longleftrightarrow>
     list_all (\<lambda>e. payerId e \<in> set (map id_p participants)) expenses"

text \<open>
  Arrays from which the loop can never leave at \<^verbatim>\<open>break\<close>: nobody is owed anything and
  somebody owes a unit or more, or nobody owes anything, somebody is exactly even and
  somebody is owed a unit or more.
\<close>

definition stuck :: "entry list \<Rightarrow> bool" where
  "stuck bs \<longleftrightarrow>
     (list_all (\<lambda>e. balance e \<le> 0) bs \<and> list_ex (\<lambda>e. balance e \<le> - 1) bs) \<or>
     (list_all (\<lambda>e. 0 \<le> balance e) bs \<and> list_ex (\<lambda>e. balance e = 0) bs \<and>
      list_ex (\<lambda>e. 1 \<le> balance e) bs)"

text \<open>The number of participants whose balance is not zero.\<close>

definition unsettled :: "entry list \<Rightarrow> nat" where
  "unsettled bs = length (filter (\<lambda>e. balance e \<noteq> 0) bs)"

text \<open>The working balances are the initial balances with the settlements so far applied,
  on an array that still lists every participant once.\<close>

definition tracked :: "participant list \<Rightarrow> expense list \<Rightarrow> loop_state \<Rightarrow> bool" where
  "tracked ps es s \<longleftrightarrow>
     mset (map id_p (balances s)) = mset (map id_p ps) \<and>
     (\<forall>e\<in>set (balances s). balance e = applyAll (results s) (balanceOf ps es) (id_p e))"

section \<open>The computation with rounding\<close>

text \<open>
  A JavaScript \<^verbatim>\<open>number\<close> is a double: the result of every addition, subtraction and
  division is rounded. The definitions of this section repeat the computation with a
  rounding function \<open>rnd\<close> applied to the result of each of these operations, in the
  places where the source has them. Comparisons, \<^verbatim>\<open>Math.abs\<close> and \<^verbatim>\<open>Math.min\<close> are exact,
  and the comparator of the sort has the sign of the exact difference. With the identity
  for \<open>rnd\<close> they are the definitions above. Overflow to an infinity and \<^verbatim>\<open>NaN\<close> stay
  outside the model.
\<close>

definition totalSpentR :: "(real \<Rightarrow> real) \<Rightarrow> expense list \<Rightarrow> real" where
  "totalSpentR rnd expenses = foldl (\<lambda>sum e. rnd (sum + amount_e e)) 0 expenses"

definition averageR :: "(real \<Rightarrow> real) \<Rightarrow> participant list \<Rightarrow> expense list \<Rightarrow> real" where
  "averageR rnd participants expenses =
     rnd (totalSpentR rnd expenses / real (length participants))"

definition paidByR :: "(real \<Rightarrow> real) \<Rightarrow> expense list \<Rightarrow> string \<Rightarrow> real" where
  "paidByR rnd expenses i =
     foldl (\<lambda>sum e. rnd (sum + amount_e e)) 0 (filter (\<lambda>e. payerId e = i) expenses)"

definition balanceOfR :: "(real \<Rightarrow> real) \<Rightarrow> participant list \<Rightarrow> expense list \<Rightarrow> string \<Rightarrow> real" where
  "balanceOfR rnd participants expenses i =
     rnd (paidByR rnd expenses i - averageR rnd participants expenses)"

definition initialBalancesR :: "(real \<Rightarrow> real) \<Rightarrow> participant list \<Rightarrow> expense list \<Rightarrow> entry list" where
  "initialBalancesR rnd participants expenses =
     map (\<lambda>p. \<lparr>id_p = id_p p, name_p = name_p p,
                paid = paidByR rnd expenses (id_p p),
                balance = balanceOfR rnd participants expenses (id_p p)\<rparr>) participants"

definition transferR :: "(real \<Rightarrow> real) \<Rightarrow> entry list \<Rightarrow> real \<Rightarrow> entry list" where
  "transferR rnd bs a =
     (let bs1 = bs[0 := (bs ! 0)\<lparr>balance := rnd (balance (bs ! 0) + a)\<rparr>];
          n = length bs1 - 1
      in bs1[n := (bs1 ! n)\<lparr>balance := rnd (balance (bs1 ! n) - a)\<rparr>])"

definition nextStateR :: "(real \<Rightarrow> real) \<Rightarrow> loop_state \<Rightarrow> loop_state" where
  "nextStateR rnd st =
     (let bs = sort_key balance (balances st);
          a = transferAmount bs
      in \<lparr>loopCount = loopCount st + 1, balances = transferR rnd bs a,
          results = emit (results st) bs a\<rparr>)"

function loopR :: "(real \<Rightarrow> real) \<Rightarrow> loop_state \<Rightarrow> error + loop_state" where
  "loopR rnd st =
     (if loopCount st < 100 then
        (let bs = sort_key balance (balances st) in
         if bs = [] then Inl TypeError
         else if settled bs then Inr (st\<lparr>balances := bs\<rparr>)
         else loopR rnd (nextStateR rnd st))
      else Inr st)"
  by pat_completeness auto
termination
  by (relation "measure (\<lambda>(rnd, st). 100 - loopCount st)") (auto simp: nextStateR_def Let_def)

declare loopR.simps [simp del]

definition initialStateR :: "(real \<Rightarrow> real) \<Rightarrow> participant list \<Rightarrow> expense list \<Rightarrow> loop_state" where
  "initialStateR rnd participants expenses =
     \<lparr>loopCount = 0, balances = initialBalancesR rnd participants expenses, results = []\<rparr>"

definition computeSettlementsR ::
  "(real \<Rightarrow> real) \<Rightarrow> participant list \<Rightarrow> expense list \<Rightarrow> error + settlement list" where
  "computeSettlementsR rnd participants expenses =
     (if length participants = 0 then Inr []
      else case loopR rnd (initialStateR rnd participants expenses) of
             Inl e \<Rightarrow> Inl e
           | Inr st \<Rightarrow> Inr (results st))"

text \<open>The passes that got beyond the \<^verbatim>\<open>break\<close> test, and leaving at \<^verbatim>\<open>break\<close>, as above.\<close>

function iterationsR :: "(real \<Rightarrow> real) \<Rightarrow> loop_state \<Rightarrow> loop_state list" where
  "iterationsR rnd st =
     (if loopCount st < 100 then
        (let bs = sort_key balance (balances st) in
         if bs = [] then []
         else if settled bs then []
         else st\<lparr>balances := bs\<rparr> # iterationsR rnd (nextStateR rnd st))
      else [])"
  by pat_completeness auto
termination
  by (relation "measure (\<lambda>(rnd, st). 100 - loopCount st)") (auto simp: nextStateR_def Let_def)

declare iterationsR.simps [simp del]

definition convergedR :: "(real \<Rightarrow> real) \<Rightarrow> participant list \<Rightarrow> expense list \<Rightarrow> bool" where
  "convergedR rnd participants expenses \<longleftrightarrow>
     participants \<noteq> [] \<and>
     (case loopR rnd (initialStateR rnd participants expenses) of
        Inl e \<Rightarrow> False
      | Inr st \<Rightarrow> loopCount st < 100)"

text \<open>
  What the proofs need of a rounding function: zero is not rounded, a rounded value is
  not rounded again, and neither is the double of a rounded value.
\<close>

definition rounding :: "(real \<Rightarrow> real) \<Rightarrow> bool" where
  "rounding rnd \<longleftrightarrow>
     rnd 0 = 0 \<and> (\<forall>x. rnd (rnd x) = rnd x) \<and> (\<forall>x. rnd (2 * rnd x) = 2 * rnd x)"

text \<open>
  A rounding function whose error is at most the fraction \<open>u\<close> of the exact value and
  \<open>eta\<close> on top: the error model of floating-point arithmetic, \<open>u\<close> for the precision
  and \<open>eta\<close> for results too small for the format.
\<close>

definition roundoff :: "real \<Rightarrow> real \<Rightarrow> (real \<Rightarrow> real) \<Rightarrow> bool" where
  "roundoff u eta rnd \<longleftrightarrow> 0 \<le> u \<and> 0 \<le> eta \<and> (\<forall>x. \<bar>rnd x - x\<bar> \<le> u * \<bar>x\<bar> + eta)"

text \<open>
  Rounding to the nearest number with a significand of 53 bits, ties to the even
  significand: the rounding of doubles, with no bound on the exponent.
\<close>

definition roundEven :: "real \<Rightarrow> int" where
  "roundEven y =
     (let f = \<lfloor>y\<rfloor>; r = y - of_int f
      in if r < 1 / 2 then f else if 1 / 2 < r then f + 1 else if even f then f else f + 1)"

definition round53 :: "real \<Rightarrow> real" where
  "round53 x =
     (if x = 0 then 0
      else let q = 2 powr (of_int \<lfloor>log 2 \<bar>x\<bar>\<rfloor> - 52)
           in q * of_int (roundEven (x / q)))"

section \<open>Example inputs\<close>

definition person :: "string \<Rightarrow> participant" where
  "person i = \<lparr>id_p = i, name_p = i\<rparr>"

definition spent :: "string \<Rightarrow> real \<Rightarrow> expense" where
  "spent i x = \<lparr>id_e = ''e'', payerId = i, amount_e = x, description = None\<rparr>"

section \<open>Sums, sorting and the shape of the array\<close>

lemmas input_defs = uniqueIds_def nonNegativeAmounts_def knownPayers_def converged_def
  person_def spent_def

lemmas compute_defs =
  computeSettlements_def initialState_def initialBalances_def balanceOf_def paidBy_def
  average_def totalSpent_def nextState_def transfer_def emit_def transferAmount_def
  settled_def debtor_def creditor_def Let_def

lemma foldl_plus: "foldl (\<lambda>sum e. sum + f e) a xs = a + sum_list (map f xs)" for a :: real
  by (induction xs arbitrary: a) (simp_all add: add.assoc)

lemma totalSpent_sum: "totalSpent es = sum_list (map amount_e es)"
  by (simp add: totalSpent_def foldl_plus)

lemma paidBy_sum: "paidBy es i = sum_list (map amount_e (filter (\<lambda>e. payerId e = i) es))"
  by (simp add: paidBy_def foldl_plus)

lemma list_shape:
  assumes "bs \<noteq> []"
  shows "(\<exists>x. bs = [x]) \<or> (\<exists>x mid z. bs = x # mid @ [z])"
proof (cases bs)
  case Nil
  then show ?thesis using assms by simp
next
  case (Cons x ys)
  then show ?thesis by (cases ys rule: rev_cases) auto
qed

lemma debtor_single [simp]: "debtor [x] = x"
  by (simp add: debtor_def)

lemma creditor_single [simp]: "creditor [x] = x"
  by (simp add: creditor_def)

lemma debtor_multi [simp]: "debtor (x # mid @ [z]) = x"
  by (simp add: debtor_def)

lemma creditor_multi [simp]: "creditor (x # mid @ [z]) = z"
  by (simp add: creditor_def nth_append)

lemma transfer_single [simp]: "transfer [x] a = [x]"
  by (simp add: transfer_def)

lemma transfer_multi [simp]:
  "transfer (x # mid @ [z]) a =
     x\<lparr>balance := balance x + a\<rparr> # mid @ [z\<lparr>balance := balance z - a\<rparr>]"
  by (simp add: transfer_def Let_def nth_append)

lemma length_transfer [simp]: "length (transfer bs a) = length bs"
  by (simp add: transfer_def Let_def)

lemma transfer_zero [simp]: "transfer bs 0 = bs"
proof (cases "bs = []")
  case True
  then show ?thesis by (simp add: transfer_def)
next
  case False
  from list_shape [OF this] show ?thesis by (elim disjE exE) simp_all
qed

lemma map_id_transfer [simp]: "map id_p (transfer bs a) = map id_p bs"
proof (cases "bs = []")
  case True
  then show ?thesis by (simp add: transfer_def)
next
  case False
  from list_shape [OF this] show ?thesis by (elim disjE exE) simp_all
qed

lemma sorted_shape:
  "sorted (map balance (x # mid @ [z])) \<Longrightarrow>
     balance x \<le> balance z \<and> (\<forall>y\<in>set mid. balance x \<le> balance y \<and> balance y \<le> balance z)"
  by (auto simp: sorted_append)

lemma sort_nonempty [simp]: "sort_key f xs = [] \<longleftrightarrow> xs = []"
proof
  assume "sort_key f xs = []"
  then have "length (sort_key f xs) = 0" by simp
  then show "xs = []" by simp
qed simp

lemma loop_Inr: "balances st \<noteq> [] \<Longrightarrow> \<exists>st'. loop st = Inr st'"
proof (induction st rule: loop.induct)
  case (1 st)
  show ?case
  proof (cases "loopCount st < 100 \<and> \<not> settled (sort_key balance (balances st))")
    case True
    have "length (balances (nextState st)) = length (balances st)"
      by (simp add: nextState_def Let_def)
    with "1.prems" have "balances (nextState st) \<noteq> []"
      by (cases "balances (nextState st)") auto
    with True "1.IH" "1.prems" show ?thesis
      by (subst loop.simps) (simp add: Let_def)
  next
    case False
    with "1.prems" show ?thesis
      by (subst loop.simps) (auto simp: Let_def)
  qed
qed

lemma loop_invariant:
  assumes "loop st = Inr st'" and "I st"
    and step: "\<And>s. I s \<Longrightarrow> loopCount s < 100 \<Longrightarrow> balances s \<noteq> [] \<Longrightarrow>
             \<not> settled (sort_key balance (balances s)) \<Longrightarrow> I (nextState s)"
  shows "\<exists>s. I s \<and> ((100 \<le> loopCount s \<and> st' = s) \<or>
               (loopCount s < 100 \<and> settled (sort_key balance (balances s)) \<and>
                st' = s\<lparr>balances := sort_key balance (balances s)\<rparr>))"
  using assms(1,2)
proof (induction st rule: loop.induct)
  case (1 st)
  show ?case
  proof (cases "loopCount st < 100")
    case False
    with "1.prems" show ?thesis
      by (subst (asm) loop.simps) auto
  next
    case lt: True
    show ?thesis
    proof (cases "balances st = []")
      case True
      with lt "1.prems" show ?thesis
        by (subst (asm) loop.simps) simp
    next
      case ne: False
      show ?thesis
      proof (cases "settled (sort_key balance (balances st))")
        case True
        with lt ne "1.prems" show ?thesis
          by (subst (asm) loop.simps) (auto simp: Let_def)
      next
        case False
        with lt ne "1.prems"(1) have "loop (nextState st) = Inr st'"
          by (subst (asm) loop.simps) (simp add: Let_def)
        moreover have "I (nextState st)"
          using step [OF "1.prems"(2) lt ne False] .
        ultimately show ?thesis
          using "1.IH" lt ne False by simp
      qed
    qed
  qed
qed

section \<open>The loop: results, counter and cap\<close>

lemma loop_counter:
  "loop st = Inr st' \<Longrightarrow> loopCount st' = loopCount st + length (iterations st)"
proof (induction st rule: loop.induct)
  case (1 st)
  show ?case
  proof (cases "loopCount st < 100 \<and> balances st \<noteq> [] \<and> \<not> settled (sort_key balance (balances st))")
    case True
    with "1.prems" have "loop (nextState st) = Inr st'"
      by (subst (asm) loop.simps) (simp add: Let_def)
    with True "1.IH" have "loopCount st' = loopCount (nextState st) + length (iterations (nextState st))"
      by simp
    moreover have "iterations st = st\<lparr>balances := sort_key balance (balances st)\<rparr> # iterations (nextState st)"
      using True by (subst iterations.simps) (simp add: Let_def)
    ultimately show ?thesis
      by (simp add: nextState_def Let_def)
  next
    case False
    then have "iterations st = []"
      by (subst iterations.simps) (auto simp: Let_def)
    moreover have "loopCount st' = loopCount st"
      using False "1.prems" by (subst (asm) loop.simps) (auto simp: Let_def split: if_splits)
    ultimately show ?thesis by simp
  qed
qed

lemma loop_results:
  "loop st = Inr st' \<Longrightarrow> results st' = results st @ concat (map emitted (iterations st))"
proof (induction st rule: loop.induct)
  case (1 st)
  show ?case
  proof (cases "loopCount st < 100 \<and> balances st \<noteq> [] \<and> \<not> settled (sort_key balance (balances st))")
    case True
    with "1.prems" have "loop (nextState st) = Inr st'"
      by (subst (asm) loop.simps) (simp add: Let_def)
    with True "1.IH" have "results st' = results (nextState st) @ concat (map emitted (iterations (nextState st)))"
      by simp
    moreover have "iterations st = st\<lparr>balances := sort_key balance (balances st)\<rparr> # iterations (nextState st)"
      using True by (subst iterations.simps) (simp add: Let_def)
    moreover have "results (nextState st) = results st @ emitted (st\<lparr>balances := sort_key balance (balances st)\<rparr>)"
      by (simp add: nextState_def Let_def emitted_def emit_def)
    ultimately show ?thesis
      by simp
  next
    case False
    then have "iterations st = []"
      by (subst iterations.simps) (auto simp: Let_def)
    moreover have "results st' = results st"
      using False "1.prems" by (subst (asm) loop.simps) (auto simp: Let_def split: if_splits)
    ultimately show ?thesis by simp
  qed
qed

lemma loop_cap: "loop st = Inr st' \<Longrightarrow> loopCount st \<le> 100 \<Longrightarrow> loopCount st' \<le> 100"
proof -
  assume a: "loop st = Inr st'" and b: "loopCount st \<le> 100"
  have "\<exists>s. loopCount s \<le> 100 \<and> ((100 \<le> loopCount s \<and> st' = s) \<or>
               (loopCount s < 100 \<and> settled (sort_key balance (balances s)) \<and>
                st' = s\<lparr>balances := sort_key balance (balances s)\<rparr>))"
    by (rule loop_invariant [OF a, where I = "\<lambda>s. loopCount s \<le> 100"])
       (use b in \<open>auto simp: nextState_def Let_def\<close>)
  then show ?thesis by auto
qed

lemma initialBalances_nonempty [simp]: "initialBalances ps es = [] \<longleftrightarrow> ps = []"
  by (simp add: initialBalances_def)

lemma initialState_simps [simp]:
  "loopCount (initialState ps es) = 0"
  "balances (initialState ps es) = initialBalances ps es"
  "results (initialState ps es) = []"
  by (simp_all add: initialState_def)

lemma computeSettlements_Inr: "\<exists>rs. computeSettlements ps es = Inr rs"
proof (cases "ps = []")
  case True
  then show ?thesis by (simp add: computeSettlements_def)
next
  case False
  then obtain st where "loop (initialState ps es) = Inr st"
    using loop_Inr [of "initialState ps es"] by auto
  with False show ?thesis by (simp add: computeSettlements_def)
qed

section \<open>Arrays that never settle\<close>

lemma sorted_bounds:
  assumes "sorted (map balance (x # mid @ [z]))" and "e \<in> set (x # mid @ [z])"
  shows "balance x \<le> balance e \<and> balance e \<le> balance z"
proof -
  from assms(1) have "\<forall>y\<in>set (mid @ [z]). balance x \<le> balance y"
    and "\<forall>y\<in>set mid. balance y \<le> balance z"
    by (simp_all add: sorted_append)
  with assms(2) show ?thesis by auto
qed

lemma sorted_entries_cases [consumes 2, case_names single multi]:
  assumes "bs \<noteq> []" and "sorted (map balance bs)"
  obtains x where "bs = [x]"
  | x mid z where "bs = x # mid @ [z]"
      and "\<forall>e\<in>set bs. balance x \<le> balance e \<and> balance e \<le> balance z"
proof -
  from list_shape [OF assms(1)] show thesis
  proof (elim disjE exE)
    fix x assume "bs = [x]"
    then show thesis by (rule that(1))
  next
    fix x mid z assume bs: "bs = x # mid @ [z]"
    have "\<forall>e\<in>set bs. balance x \<le> balance e \<and> balance e \<le> balance z"
      using sorted_bounds [of x mid z] assms(2) unfolding bs by blast
    with bs show thesis by (rule that(2))
  qed
qed

lemma sorted_sort_balance [simp]: "sorted (map balance (sort_key balance bs))"
  by (rule sorted_sort_key)

lemma stuck_sort [simp]: "stuck (sort_key f bs) = stuck bs"
  by (simp add: stuck_def list_all_iff list_ex_iff)

lemma stuck_not_settled:
  assumes "bs \<noteq> []" and "sorted (map balance bs)" and "stuck bs"
  shows "\<not> settled bs"
  using assms(1,2)
proof (cases rule: sorted_entries_cases)
  case (single x)
  with assms(3) show ?thesis
    by (auto simp: stuck_def settled_def)
next
  case (multi x mid z)
  from assms(3) have "(\<exists>e\<in>set bs. balance e \<le> - 1) \<or> (\<exists>e\<in>set bs. 1 \<le> balance e)"
    by (auto simp: stuck_def list_ex_iff)
  then have "balance x \<le> - 1 \<or> 1 \<le> balance z"
    using multi(2) by force
  then show ?thesis
    by (auto simp: settled_def multi(1))
qed

lemma stuck_transfer:
  assumes "bs \<noteq> []" and "sorted (map balance bs)" and "stuck bs"
  shows "stuck (transfer bs (transferAmount bs))"
  using assms(1,2)
proof (cases rule: sorted_entries_cases)
  case (single x)
  with assms(3) show ?thesis by simp
next
  case (multi x mid z)
  from assms(3) consider
    (neg) "list_all (\<lambda>e. balance e \<le> 0) bs" "list_ex (\<lambda>e. balance e \<le> - 1) bs"
    | (pos) "list_all (\<lambda>e. 0 \<le> balance e) bs" "list_ex (\<lambda>e. balance e = 0) bs"
    by (auto simp: stuck_def)
  then show ?thesis
  proof cases
    case neg
    have xz: "x \<in> set bs" "z \<in> set bs" by (simp_all add: multi(1))
    from neg(2) obtain e where "e \<in> set bs" "balance e \<le> - 1"
      by (auto simp: list_ex_iff)
    with multi(2) have "balance x \<le> - 1" by force
    from neg(1) xz have "balance z \<le> 0" by (simp add: list_all_iff)
    then have a: "transferAmount bs = balance z"
      using multi(1) by (simp add: transferAmount_def)
    have "list_all (\<lambda>e. balance e \<le> 0) (transfer bs (transferAmount bs))"
      using neg(1) \<open>balance x \<le> - 1\<close> \<open>balance z \<le> 0\<close> unfolding a
      by (simp add: multi(1) list_all_iff)
    moreover have "list_ex (\<lambda>e. balance e \<le> - 1) (transfer bs (transferAmount bs))"
      using \<open>balance x \<le> - 1\<close> \<open>balance z \<le> 0\<close> unfolding a
      by (simp add: multi(1))
    ultimately show ?thesis by (simp add: stuck_def)
  next
    case pos
    have xz: "x \<in> set bs" "z \<in> set bs" by (simp_all add: multi(1))
    from pos(2) obtain e where "e \<in> set bs" "balance e = 0"
      by (auto simp: list_ex_iff)
    with multi(2) have "balance x \<le> 0" by force
    moreover from pos(1) xz have "0 \<le> balance x" "0 \<le> balance z" by (simp_all add: list_all_iff)
    ultimately have "balance x = 0" and "0 \<le> balance z" by simp_all
    then have "transferAmount bs = 0"
      using multi(1) by (simp add: transferAmount_def)
    with assms(3) show ?thesis by simp
  qed
qed

lemma no_transfer_stuck:
  assumes "bs \<noteq> []" and "sorted (map balance bs)" and "\<not> settled bs"
    and "transferAmount bs \<le> 0"
  shows "stuck bs"
  using assms(1,2)
proof (cases rule: sorted_entries_cases)
  case (single x)
  with assms(3,4) show ?thesis
    by (auto simp: stuck_def settled_def transferAmount_def)
next
  case (multi x mid z)
  from assms(4) multi(1) have "balance z \<le> 0 \<or> balance x = 0"
    by (auto simp: transferAmount_def min_def split: if_splits)
  then show ?thesis
  proof
    assume z: "balance z \<le> 0"
    have xz: "x \<in> set bs" "z \<in> set bs" by (simp_all add: multi(1))
    with multi(2) have "balance x \<le> balance z" by blast
    with z assms(3) have "balance x \<le> - 1"
      by (auto simp: settled_def multi(1))
    moreover have "\<forall>e\<in>set bs. balance e \<le> 0" using multi(2) z by force
    ultimately show ?thesis
      using xz by (auto simp: stuck_def list_all_iff list_ex_iff)
  next
    assume x: "balance x = 0"
    have xz: "x \<in> set bs" "z \<in> set bs" by (simp_all add: multi(1))
    with multi(2) have "balance x \<le> balance z" by blast
    with x assms(3) have "1 \<le> balance z"
      by (auto simp: settled_def multi(1))
    moreover have "\<forall>e\<in>set bs. 0 \<le> balance e" using multi(2) x by force
    ultimately show ?thesis
      using xz x by (auto simp: stuck_def list_all_iff list_ex_iff)
  qed
qed

lemma stuck_nextState:
  assumes "balances st \<noteq> []" and "stuck (balances st)"
  shows "stuck (balances (nextState st))"
  using stuck_transfer [of "sort_key balance (balances st)"] assms
  by (simp add: nextState_def Let_def)

lemma stuck_runs_to_cap:
  assumes "loop st = Inr st'" and "stuck (balances st)" and "loopCount st \<le> 100"
  shows "loopCount st' = 100"
proof -
  have "\<exists>s. (stuck (balances s) \<and> loopCount s \<le> 100) \<and> ((100 \<le> loopCount s \<and> st' = s) \<or>
               (loopCount s < 100 \<and> settled (sort_key balance (balances s)) \<and>
                st' = s\<lparr>balances := sort_key balance (balances s)\<rparr>))"
  proof (rule loop_invariant [OF assms(1), where I = "\<lambda>s. stuck (balances s) \<and> loopCount s \<le> 100"])
    show "stuck (balances st) \<and> loopCount st \<le> 100" using assms by simp
  next
    fix s :: loop_state assume "stuck (balances s) \<and> loopCount s \<le> 100" "loopCount s < 100" "balances s \<noteq> []"
    then show "stuck (balances (nextState s)) \<and> loopCount (nextState s) \<le> 100"
      using stuck_nextState [of s] by (simp add: nextState_def Let_def)
  qed
  then obtain s where s: "stuck (balances s)" "loopCount s \<le> 100"
    and d: "(100 \<le> loopCount s \<and> st' = s) \<or>
               (loopCount s < 100 \<and> settled (sort_key balance (balances s)) \<and>
                st' = s\<lparr>balances := sort_key balance (balances s)\<rparr>)"
    by blast
  have ne: "balances s \<noteq> []" using s(1) by (auto simp: stuck_def)
  have "\<not> settled (sort_key balance (balances s))"
    using stuck_not_settled [of "sort_key balance (balances s)"] ne s(1) by simp
  with d s(2) show ?thesis by auto
qed
section \<open>One pass of the loop\<close>

lemma debtor_in_set: "bs \<noteq> [] \<Longrightarrow> debtor bs \<in> set bs"
  by (simp add: debtor_def)

lemma creditor_in_set: "bs \<noteq> [] \<Longrightarrow> creditor bs \<in> set bs"
  by (simp add: creditor_def)

lemma balances_no_expenses: "b \<in> set (initialBalances ps []) \<Longrightarrow> balance b = 0"
  by (auto simp: initialBalances_def balanceOf_def paidBy_def average_def totalSpent_def)

lemma transfer_shape:
  assumes "bs \<noteq> []"
  shows "transfer bs a =
     (if length bs = 1 then [(debtor bs)\<lparr>balance := balance (debtor bs) + a - a\<rparr>]
      else (debtor bs)\<lparr>balance := balance (debtor bs) + a\<rparr> # butlast (tl bs) @
           [(creditor bs)\<lparr>balance := balance (creditor bs) - a\<rparr>])"
  using list_shape [OF assms] by (elim disjE exE) simp_all

lemma sorted_extremes:
  assumes "bs \<noteq> []" and "sorted (map balance bs)" and "e \<in> set bs"
  shows "balance (debtor bs) \<le> balance e \<and> balance e \<le> balance (creditor bs)"
  using assms(1,2)
proof (cases rule: sorted_entries_cases)
  case (single x)
  with assms(3) show ?thesis by simp
next
  case (multi x mid z)
  from multi(2) assms(3) show ?thesis unfolding multi(1) by auto
qed

section \<open>The sum of the initial balances\<close>

lemma sum_list_indicator:
  "distinct (map id_p ps) \<Longrightarrow>
     sum_list (map (\<lambda>p. if k = id_p p then a else 0) ps) =
       (if k \<in> set (map id_p ps) then a else (0::real))"
  by (induction ps) auto

lemma paidBy_Cons:
  "paidBy (e # es) i = (if payerId e = i then amount_e e else 0) + paidBy es i"
  by (simp add: paidBy_sum)

lemma sum_paid:
  assumes "distinct (map id_p ps)"
  shows "sum_list (map (\<lambda>p. paidBy es (id_p p)) ps) =
           sum_list (map amount_e (filter (\<lambda>e. payerId e \<in> set (map id_p ps)) es))"
proof (induction es)
  case Nil
  show ?case by (simp add: paidBy_sum)
next
  case (Cons e es)
  have "sum_list (map (\<lambda>p. paidBy (e # es) (id_p p)) ps) =
          sum_list (map (\<lambda>p. if payerId e = id_p p then amount_e e else 0) ps) +
          sum_list (map (\<lambda>p. paidBy es (id_p p)) ps)"
    by (simp add: paidBy_Cons sum_list_addf)
  also have "sum_list (map (\<lambda>p. if payerId e = id_p p then amount_e e else 0) ps) =
          (if payerId e \<in> set (map id_p ps) then amount_e e else 0)"
    by (rule sum_list_indicator [OF assms])
  finally show ?case using Cons.IH by simp
qed

lemma sum_initialBalances:
  "sum_list (map balance (initialBalances ps es)) =
     sum_list (map (\<lambda>p. paidBy es (id_p p)) ps) - real (length ps) * average ps es"
proof -
  have "sum_list (map (\<lambda>p. paidBy es (id_p p) - c) ps) =
          sum_list (map (\<lambda>p. paidBy es (id_p p)) ps) - real (length ps) * c" for c
    by (induction ps) (simp_all add: algebra_simps)
  then show ?thesis
    by (simp add: initialBalances_def balanceOf_def comp_def)
qed

lemma sum_balances_unknown:
  assumes "ps \<noteq> []" and "distinct (map id_p ps)"
  shows "sum_list (map balance (initialBalances ps es)) =
           - sum_list (map amount_e (filter (\<lambda>e. payerId e \<notin> set (map id_p ps)) es))"
proof -
  have "real (length ps) * average ps es = totalSpent es"
    using assms(1) by (simp add: average_def)
  moreover have "totalSpent es =
      sum_list (map amount_e (filter (\<lambda>e. payerId e \<in> set (map id_p ps)) es)) +
      sum_list (map amount_e (filter (\<lambda>e. payerId e \<notin> set (map id_p ps)) es))"
    unfolding totalSpent_sum by (induction es) simp_all
  ultimately show ?thesis
    by (simp add: sum_initialBalances sum_paid [OF assms(2)])
qed

lemma sum_balances_nonpos:
  assumes "ps \<noteq> []" and "uniqueIds ps" and "nonNegativeAmounts es"
  shows "sum_list (map balance (initialBalances ps es)) \<le> 0"
proof -
  have "0 \<le> sum_list (map amount_e (filter (\<lambda>e. payerId e \<notin> set (map id_p ps)) es))"
    using assms(3) by (intro sum_list_nonneg) (auto simp: nonNegativeAmounts_def list_all_iff)
  with sum_balances_unknown [OF assms(1)] assms(2) show ?thesis
    by (simp add: uniqueIds_def)
qed

section \<open>The sum of the working balances\<close>

lemma sum_balance_sort [simp]:
  "sum_list (map balance (sort_key f bs)) = sum_list (map balance bs)"
proof -
  have "sum_mset (image_mset balance (mset (sort_key f bs))) =
        sum_mset (image_mset balance (mset bs))"
    by simp
  then show ?thesis
    by (simp only: sum_mset_sum_list flip: mset_map)
qed

lemma sum_balance_transfer [simp]:
  "sum_list (map balance (transfer bs a)) = sum_list (map balance bs)"
proof (cases "bs = []")
  case True
  then show ?thesis by (simp add: transfer_def)
next
  case False
  from list_shape [OF this] show ?thesis by (elim disjE exE) simp_all
qed

lemma sum_balance_nextState:
  "sum_list (map balance (balances (nextState st))) = sum_list (map balance (balances st))"
  by (simp add: nextState_def Let_def)

lemma sum_list_positive:
  assumes "xs \<noteq> []" and "\<forall>x\<in>set xs. (0::real) < x"
  shows "0 < sum_list xs"
  using assms by (induction xs) (auto intro: add_pos_nonneg sum_list_nonneg less_imp_le)

text \<open>With a non-positive sum, a positive transfer amount means a debtor in debt, a
  creditor in credit and two different array elements.\<close>

lemma positive_transfer:
  assumes "bs \<noteq> []" and "sorted (map balance bs)"
    and "sum_list (map balance bs) \<le> 0" and "0 < transferAmount bs"
  shows "length bs \<noteq> 1 \<and> balance (debtor bs) < 0 \<and> 0 < balance (creditor bs)"
  using assms(1,2)
proof (cases rule: sorted_entries_cases)
  case (single x)
  with assms(3,4) show ?thesis
    by (auto simp: transferAmount_def)
next
  case (multi x mid z)
  from assms(4) have z: "0 < balance z" and x: "balance x \<noteq> 0"
    by (auto simp: transferAmount_def multi(1))
  have "balance x < 0"
  proof (rule ccontr)
    assume "\<not> balance x < 0"
    with x have "0 < balance x" by simp
    with multi(2) have "\<forall>e\<in>set bs. 0 < balance e" by force
    then have "0 < sum_list (map balance bs)"
      using assms(1) by (intro sum_list_positive) auto
    with assms(3) show False by simp
  qed
  with z show ?thesis by (simp add: multi(1))
qed

lemma unsettled_sort [simp]: "unsettled (sort_key f bs) = unsettled bs"
  by (simp add: unsettled_def filter_sort)

lemma unsettled_multi:
  "unsettled (x # mid @ [z]) =
     (if balance x \<noteq> 0 then 1 else 0) + unsettled mid + (if balance z \<noteq> 0 then 1 else 0)"
  by (simp add: unsettled_def)

lemma unsettled_le_length: "unsettled bs \<le> length bs"
  by (simp add: unsettled_def)

section \<open>The passes that push a settlement\<close>

lemma iterations_invariant:
  assumes "it \<in> set (iterations st)" and "I st"
    and step: "\<And>s. I s \<Longrightarrow> loopCount s < 100 \<Longrightarrow> balances s \<noteq> [] \<Longrightarrow>
             \<not> settled (sort_key balance (balances s)) \<Longrightarrow> I (nextState s)"
  shows "\<exists>s. I s \<and> loopCount s < 100 \<and> balances s \<noteq> [] \<and>
             \<not> settled (sort_key balance (balances s)) \<and>
             it = s\<lparr>balances := sort_key balance (balances s)\<rparr>"
  using assms(1,2)
proof (induction st rule: iterations.induct)
  case (1 st)
  show ?case
  proof (cases "loopCount st < 100 \<and> balances st \<noteq> [] \<and> \<not> settled (sort_key balance (balances st))")
    case True
    then have "iterations st = st\<lparr>balances := sort_key balance (balances st)\<rparr> # iterations (nextState st)"
      by (subst iterations.simps) (simp add: Let_def)
    with "1.prems"(1) consider "it = st\<lparr>balances := sort_key balance (balances st)\<rparr>"
      | "it \<in> set (iterations (nextState st))"
      by auto
    then show ?thesis
    proof cases
      case 1
      with True "1.prems"(2) show ?thesis by blast
    next
      case 2
      moreover have "I (nextState st)"
        using step [OF "1.prems"(2)] True by simp
      ultimately show ?thesis
        using "1.IH" True by simp
    qed
  next
    case False
    then have "iterations st = []"
      by (subst iterations.simps) (auto simp: Let_def)
    with "1.prems"(1) show ?thesis by simp
  qed
qed

lemma emitted_cases:
  "s \<in> set (emitted it) \<Longrightarrow>
     0 < transferAmount (balances it) \<and>
     s = \<lparr>fromId = id_p (debtor (balances it)), toId = id_p (creditor (balances it)),
          amount = transferAmount (balances it)\<rparr>"
  by (auto simp: emitted_def emit_def split: if_splits)

lemma emission_facts:
  assumes "ps \<noteq> []" and "uniqueIds ps" and "nonNegativeAmounts es"
    and "it \<in> set (iterations (initialState ps es))" and "s \<in> set (emitted it)"
  shows "0 < amount s \<and> length (balances it) \<noteq> 1 \<and> balances it \<noteq> [] \<and>
         fromId s = id_p (debtor (balances it)) \<and> balance (debtor (balances it)) < 0 \<and>
         toId s = id_p (creditor (balances it)) \<and> 0 < balance (creditor (balances it)) \<and>
         mset (map id_p (balances it)) = mset (map id_p ps)"
proof -
  let ?I = "\<lambda>s. sum_list (map balance (balances s)) \<le> 0 \<and>
                 mset (map id_p (balances s)) = mset (map id_p ps)"
  have "\<exists>s. ?I s \<and> loopCount s < 100 \<and> balances s \<noteq> [] \<and>
             \<not> settled (sort_key balance (balances s)) \<and>
             it = s\<lparr>balances := sort_key balance (balances s)\<rparr>"
  proof (rule iterations_invariant [OF assms(4), where I = ?I])
    show "?I (initialState ps es)"
      using sum_balances_nonpos [OF assms(1,2,3)]
      by (simp add: initialBalances_def comp_def)
  next
    fix s :: loop_state
    assume "?I s"
    then show "?I (nextState s)"
      by (simp add: nextState_def Let_def)
  qed
  then obtain s0 where I: "?I s0" and ne: "balances s0 \<noteq> []"
    and it: "it = s0\<lparr>balances := sort_key balance (balances s0)\<rparr>"
    by blast
  let ?bs = "balances it"
  have bs: "?bs = sort_key balance (balances s0)" by (simp add: it)
  have ne': "?bs \<noteq> []" and srt: "sorted (map balance ?bs)"
    and sum: "sum_list (map balance ?bs) \<le> 0"
    and ids: "mset (map id_p ?bs) = mset (map id_p ps)"
    using I ne by (simp_all add: bs)
  from emitted_cases [OF assms(5)]
  have pos: "0 < transferAmount ?bs"
    and s: "s = \<lparr>fromId = id_p (debtor ?bs), toId = id_p (creditor ?bs), amount = transferAmount ?bs\<rparr>"
    by simp_all
  from positive_transfer [OF ne' srt sum pos] pos ne' ids show ?thesis
    by (simp add: s)
qed

lemma computeSettlements_results:
  assumes "computeSettlements ps es = Inr rs"
  shows "rs = concat (map emitted (iterations (initialState ps es)))"
proof (cases "ps = []")
  case True
  then have "iterations (initialState ps es) = []"
    by (subst iterations.simps) (simp add: Let_def)
  with True assms show ?thesis by (simp add: computeSettlements_def)
next
  case False
  with assms obtain st where st: "loop (initialState ps es) = Inr st" and rs: "rs = results st"
    by (auto simp: computeSettlements_def split: sum.splits)
  from loop_results [OF st] rs show ?thesis by simp
qed

lemma iterations_no_participants: "iterations (initialState [] es) = []"
  by (subst iterations.simps) (simp add: Let_def)

lemma distinct_ends:
  assumes "distinct (map id_p bs)" and "bs \<noteq> []" and "length bs \<noteq> 1"
  shows "id_p (debtor bs) \<noteq> id_p (creditor bs)"
  using list_shape [OF assms(2)] assms(1,3) by (elim disjE exE) auto

section \<open>Working balances and applied settlements\<close>

lemma applyAll_snoc: "applyAll (rs @ [s]) b = applySettlement s (applyAll rs b)"
  by (simp add: applyAll_def)

lemma applyAll_Nil [simp]: "applyAll [] b = b"
  by (simp add: applyAll_def)

lemma transfer_tracks_settlement:
  assumes "bs \<noteq> []" and "distinct (map id_p bs)"
    and "\<forall>e\<in>set bs. balance e = b (id_p e)"
  shows "\<forall>e\<in>set (transfer bs a). balance e =
           applySettlement \<lparr>fromId = id_p (debtor bs), toId = id_p (creditor bs), amount = a\<rparr> b (id_p e)"
  using list_shape [OF assms(1)]
proof (elim disjE exE)
  fix x assume "bs = [x]"
  with assms(3) show ?thesis
    by (simp add: applySettlement_def)
next
  fix x mid z assume bs: "bs = x # mid @ [z]"
  from assms(2) have d: "id_p x \<noteq> id_p z" "\<forall>y\<in>set mid. id_p y \<noteq> id_p x \<and> id_p y \<noteq> id_p z"
    unfolding bs by (auto simp: image_iff)
  from assms(3) have b: "balance x = b (id_p x)" "balance z = b (id_p z)"
    "\<forall>y\<in>set mid. balance y = b (id_p y)"
    unfolding bs by simp_all
  show ?thesis
    unfolding bs using d b by (auto simp: applySettlement_def)
qed

lemma tracked_initial: "tracked ps es (initialState ps es)"
  by (simp add: tracked_def initialBalances_def comp_def)

lemma tracked_step:
  assumes "uniqueIds ps" and "tracked ps es s" and "balances s \<noteq> []"
    and "\<not> settled (sort_key balance (balances s))"
  shows "tracked ps es (nextState s) \<or> stuck (balances (nextState s))"
proof (cases "0 < transferAmount (sort_key balance (balances s))")
  case True
  let ?bs = "sort_key balance (balances s)"
  let ?a = "transferAmount ?bs"
  let ?s = "\<lparr>fromId = id_p (debtor ?bs), toId = id_p (creditor ?bs), amount = ?a\<rparr>"
  have ids: "mset (map id_p ?bs) = mset (map id_p ps)"
    using assms(2) by (simp add: tracked_def)
  with assms(1) have dist: "distinct (map id_p ?bs)"
    by (metis uniqueIds_def mset_eq_imp_distinct_iff)
  have ne: "?bs \<noteq> []" using assms(3) by simp
  have "\<forall>e\<in>set ?bs. balance e = applyAll (results s) (balanceOf ps es) (id_p e)"
    using assms(2) by (simp add: tracked_def)
  from transfer_tracks_settlement [OF ne dist this]
  have "\<forall>e\<in>set (transfer ?bs ?a). balance e =
          applyAll (results s @ [?s]) (balanceOf ps es) (id_p e)"
    by (simp only: applyAll_snoc)
  moreover have "results (nextState s) = results s @ [?s]"
    using True by (simp add: nextState_def Let_def emit_def)
  moreover have "balances (nextState s) = transfer ?bs ?a"
    by (simp add: nextState_def Let_def)
  moreover have "mset (map id_p (transfer ?bs ?a)) = mset (map id_p ps)"
    using ids by (simp only: map_id_transfer)
  ultimately have "tracked ps es (nextState s)"
    by (simp only: tracked_def)
  then show ?thesis ..
next
  case False
  let ?bs = "sort_key balance (balances s)"
  have ne: "?bs \<noteq> []" using assms(3) by simp
  have "stuck ?bs"
    using False assms(4) ne by (intro no_transfer_stuck) simp_all
  then have "stuck (balances s)" by simp
  from stuck_nextState [OF assms(3) this] show ?thesis ..
qed

section \<open>Rounding to 53 bits\<close>

lemma roundEven_int [simp]: "roundEven (of_int m) = m"
  by (simp add: roundEven_def)

lemma roundEven_error: "\<bar>of_int (roundEven y) - y\<bar> \<le> 1 / 2"
  unfolding roundEven_def Let_def by (auto; linarith)

lemma binade:
  assumes "x \<noteq> 0"
  shows "2 powr of_int \<lfloor>log 2 \<bar>x\<bar>\<rfloor> \<le> \<bar>x\<bar>" and "\<bar>x\<bar> < 2 powr (of_int \<lfloor>log 2 \<bar>x\<bar>\<rfloor> + 1)"
  using floor_log_eq_powr_iff [of "\<bar>x\<bar>" 2 "\<lfloor>log 2 \<bar>x\<bar>\<rfloor>"] assms by simp_all

lemma round53_at:
  assumes "2 powr of_int k \<le> \<bar>x\<bar>" and "\<bar>x\<bar> < 2 powr (of_int k + 1)"
  shows "round53 x = 2 powr (of_int k - 52) * of_int (roundEven (x / 2 powr (of_int k - 52)))"
proof -
  have pos: "0 < \<bar>x\<bar>" using assms(1) by (smt (verit) powr_gt_zero)
  then have "\<lfloor>log 2 \<bar>x\<bar>\<rfloor> = k"
    using floor_log_eq_powr_iff [of "\<bar>x\<bar>" 2 k] assms by simp
  with pos show ?thesis by (simp add: round53_def Let_def)
qed

lemma round53_0 [simp]: "round53 0 = 0"
  by (simp add: round53_def)

lemma round53_roundoff: "\<bar>round53 x - x\<bar> \<le> 2 powr (- 53) * \<bar>x\<bar>"
proof (cases "x = 0")
  case True
  then show ?thesis by simp
next
  case False
  define k where "k = \<lfloor>log 2 \<bar>x\<bar>\<rfloor>"
  define q :: real where "q = 2 powr (of_int k - 52)"
  have q: "0 < q" by (simp add: q_def)
  have r: "round53 x = q * of_int (roundEven (x / q))"
    using False by (simp add: round53_def Let_def q_def k_def)
  have "round53 x - x = q * (of_int (roundEven (x / q)) - x / q)"
    using q by (simp add: r algebra_simps)
  then have "\<bar>round53 x - x\<bar> = q * \<bar>of_int (roundEven (x / q)) - x / q\<bar>"
    using q by (simp add: abs_mult)
  also have "\<dots> \<le> q * (1 / 2)"
    using roundEven_error [of "x / q"] q by (intro mult_left_mono) simp_all
  also have "q * (1 / 2) = 2 powr (- 53) * 2 powr of_int k"
    by (simp add: q_def powr_diff powr_minus divide_simps)
  also have "\<dots> \<le> 2 powr (- 53) * \<bar>x\<bar>"
    using binade(1) [OF False] by (simp add: k_def)
  finally show ?thesis .
qed

lemma roundEven_ge: "of_int a \<le> y \<Longrightarrow> a \<le> roundEven y"
  unfolding roundEven_def Let_def by (auto simp: le_floor_iff; linarith)

lemma roundEven_le: "y \<le> of_int b \<Longrightarrow> roundEven y \<le> b"
proof (cases "y = of_int b")
  case True
  then show ?thesis by simp
next
  case False
  assume "y \<le> of_int b"
  with False have "y < of_int b" by simp
  then have "\<lfloor>y\<rfloor> < b" by (simp add: floor_less_iff)
  then show ?thesis
    unfolding roundEven_def Let_def by auto
qed

lemma grid_52: "(2::real) powr of_int k = 2 powr (of_int k - 52) * 2 ^ 52"
proof -
  have "(2::real) powr of_int k = 2 powr ((of_int k - 52) + 52)" by simp
  also have "\<dots> = 2 powr (of_int k - 52) * 2 powr 52" by (rule powr_add)
  finally show ?thesis by simp
qed

lemma grid_53: "(2::real) powr (of_int k + 1) = 2 powr (of_int k - 52) * 2 ^ 53"
proof -
  have "of_int k + 1 = (of_int k - 52) + (53::real)" by simp
  then have "(2::real) powr (of_int k + 1) = 2 powr ((of_int k - 52) + 53)" by (simp only:)
  also have "\<dots> = 2 powr (of_int k - 52) * 2 powr 53" by (rule powr_add)
  finally show ?thesis by simp
qed

lemma grid_next: "(2::real) powr (of_int (k + 1) - 52) = 2 * 2 powr (of_int k - 52)"
proof -
  have "(2::real) powr (of_int (k + 1) - 52) = 2 powr (1 + (of_int k - 52))" by simp
  also have "\<dots> = 2 powr 1 * 2 powr (of_int k - 52)" by (rule powr_add)
  finally show ?thesis by simp
qed

lemma round53_q:
  assumes "q = 2 powr (of_int k - 52)" and "q * 2 ^ 52 \<le> \<bar>x\<bar>" and "\<bar>x\<bar> < q * 2 ^ 53"
  shows "round53 x = q * of_int (roundEven (x / q))"
  using round53_at [of k x] assms by (simp only: grid_52 grid_53)

lemma binade_q:
  assumes "x \<noteq> 0" and "q = 2 powr (of_int \<lfloor>log 2 \<bar>x\<bar>\<rfloor> - 52)"
  shows "q * 2 ^ 52 \<le> \<bar>x\<bar>" and "\<bar>x\<bar> < q * 2 ^ 53"
  using binade [OF assms(1)] unfolding assms(2) by (simp_all only: grid_52 grid_53)

lemma round53_double: "round53 (2 * x) = 2 * round53 x"
proof (cases "x = 0")
  case True
  then show ?thesis by simp
next
  case False
  define k where "k = \<lfloor>log 2 \<bar>x\<bar>\<rfloor>"
  define q :: real where "q = 2 powr (of_int k - 52)"
  have q: "0 < q" by (simp add: q_def)
  have b: "q * 2 ^ 52 \<le> \<bar>x\<bar>" "\<bar>x\<bar> < q * 2 ^ 53"
    using binade_q [OF False] by (simp_all add: q_def k_def)
  have q2: "2 * q = 2 powr (of_int (k + 1) - 52)"
    unfolding q_def by (rule grid_next [symmetric])
  have "(2 * q) * 2 ^ 52 \<le> \<bar>2 * x\<bar>" "\<bar>2 * x\<bar> < (2 * q) * 2 ^ 53"
    using b by simp_all
  from round53_q [OF q2 this] have "round53 (2 * x) = 2 * q * of_int (roundEven (x / q))"
    using q by simp
  moreover from round53_q [OF q_def b] have "round53 x = q * of_int (roundEven (x / q))" .
  ultimately show ?thesis by simp
qed

lemma round53_grid:
  assumes "2 ^ 52 \<le> \<bar>m\<bar>" and "\<bar>m\<bar> \<le> 2 ^ 53" and "q = 2 powr (of_int k - 52)"
  shows "round53 (q * of_int m) = q * of_int m"
proof -
  have q: "0 < q" by (simp add: assms(3))
  have am: "\<bar>q * of_int m\<bar> = q * \<bar>of_int m\<bar>"
    using q by (simp add: abs_mult)
  from assms(1) have "of_int (2 ^ 52) \<le> (of_int \<bar>m\<bar> :: real)" by (simp only: of_int_le_iff)
  then have lo: "2 ^ 52 \<le> \<bar>of_int m :: real\<bar>" by simp
  show ?thesis
  proof (cases "\<bar>m\<bar> = 2 ^ 53")
    case False
    with assms(2) have "\<bar>m\<bar> < 2 ^ 53" by simp
    then have "(of_int \<bar>m\<bar> :: real) < of_int (2 ^ 53)" by (simp only: of_int_less_iff)
    then have hi: "\<bar>of_int m :: real\<bar> < 2 ^ 53" by simp
    have "q * 2 ^ 52 \<le> \<bar>q * of_int m\<bar>" "\<bar>q * of_int m\<bar> < q * 2 ^ 53"
      unfolding am using lo hi q by simp_all
    from round53_q [OF assms(3) this] q show ?thesis by simp
  next
    case True
    then have "(of_int \<bar>m\<bar> :: real) = of_int (2 ^ 53)" by (simp only:)
    then have eq: "\<bar>of_int m :: real\<bar> = 2 ^ 53" by simp
    have q2: "2 * q = 2 powr (of_int (k + 1) - 52)"
      unfolding assms(3) by (rule grid_next [symmetric])
    have "(2 * q) * 2 ^ 52 \<le> \<bar>q * of_int m\<bar>" "\<bar>q * of_int m\<bar> < (2 * q) * 2 ^ 53"
      unfolding am eq using q by simp_all
    from round53_q [OF q2 this]
    have "round53 (q * of_int m) = 2 * q * of_int (roundEven (of_int m / 2))"
      using q by simp
    moreover from True have "m = 2 * 2 ^ 52 \<or> m = 2 * (- (2 ^ 52))"
      by (simp add: abs_if split: if_splits)
    then obtain h where "m = 2 * h" by blast
    then have "(of_int m :: real) / 2 = of_int h" by simp
    then have "2 * of_int (roundEven (of_int m / 2)) = (of_int m :: real)"
      using \<open>m = 2 * h\<close> by simp
    ultimately show ?thesis by (simp add: algebra_simps)
  qed
qed

lemma round53_idem: "round53 (round53 x) = round53 x"
proof (cases "x = 0")
  case True
  then show ?thesis by simp
next
  case False
  define k where "k = \<lfloor>log 2 \<bar>x\<bar>\<rfloor>"
  define q :: real where "q = 2 powr (of_int k - 52)"
  define m where "m = roundEven (x / q)"
  have q: "0 < q" by (simp add: q_def)
  have b: "q * 2 ^ 52 \<le> \<bar>x\<bar>" "\<bar>x\<bar> < q * 2 ^ 53"
    using binade_q [OF False] by (simp_all add: q_def k_def)
  have r: "round53 x = q * of_int m"
    unfolding m_def by (rule round53_q [OF q_def b])
  have "2 ^ 52 \<le> \<bar>m\<bar> \<and> \<bar>m\<bar> \<le> 2 ^ 53"
  proof (cases "0 \<le> x")
    case True
    with b q have lo: "of_int (2 ^ 52) \<le> x / q" and hi: "x / q \<le> of_int (2 ^ 53)"
      by (simp_all add: field_simps)
    have "2 ^ 52 \<le> m" "m \<le> 2 ^ 53"
      unfolding m_def using roundEven_ge [OF lo] roundEven_le [OF hi] by blast+
    then show ?thesis by simp
  next
    case False
    with b q have hi: "x / q \<le> of_int (- (2 ^ 52))" and lo: "of_int (- (2 ^ 53)) \<le> x / q"
      by (simp_all add: field_simps)
    have "m \<le> - (2 ^ 52)" "- (2 ^ 53) \<le> m"
      unfolding m_def using roundEven_ge [OF lo] roundEven_le [OF hi] by blast+
    then show ?thesis by simp
  qed
  then show ?thesis
    unfolding r using round53_grid [OF _ _ q_def, of m] by simp
qed

lemma rounding_round53: "rounding round53"
  by (simp add: rounding_def round53_idem round53_double)

lemma roundoff_round53:
  assumes "0 \<le> eta"
  shows "roundoff (2 powr (- 53)) eta round53"
proof -
  have "\<bar>round53 x - x\<bar> \<le> 2 powr (- 53) * \<bar>x\<bar> + eta" for x
    using round53_roundoff [of x] assms by linarith
  with assms show ?thesis by (simp add: roundoff_def)
qed

lemma rounding_id: "rounding (\<lambda>x. x)"
  by (simp add: rounding_def)

lemma roundoff_id: "roundoff 0 0 (\<lambda>x. x)"
  by (simp add: roundoff_def)

section \<open>The computation with rounding: its loop\<close>

lemma transferR_single [simp]:
  "transferR rnd [x] a = [x\<lparr>balance := rnd (rnd (balance x + a) - a)\<rparr>]"
  by (simp add: transferR_def)

lemma transferR_multi [simp]:
  "transferR rnd (x # mid @ [z]) a =
     x\<lparr>balance := rnd (balance x + a)\<rparr> # mid @ [z\<lparr>balance := rnd (balance z - a)\<rparr>]"
  by (simp add: transferR_def Let_def nth_append)

lemma length_transferR [simp]: "length (transferR rnd bs a) = length bs"
  by (simp add: transferR_def Let_def)

lemma transferR_nonempty [simp]: "transferR rnd bs a = [] \<longleftrightarrow> bs = []"
proof
  assume "transferR rnd bs a = []"
  then have "length (transferR rnd bs a) = 0" by simp
  then show "bs = []" by simp
qed (simp add: transferR_def)

lemma map_id_transferR [simp]: "map id_p (transferR rnd bs a) = map id_p bs"
proof (cases "bs = []")
  case True
  then show ?thesis by (simp add: transferR_def)
next
  case False
  from list_shape [OF this] show ?thesis by (elim disjE exE) simp_all
qed

lemma nextStateR_simps [simp]:
  "loopCount (nextStateR rnd st) = loopCount st + 1"
  "balances (nextStateR rnd st) =
     transferR rnd (sort_key balance (balances st)) (transferAmount (sort_key balance (balances st)))"
  "results (nextStateR rnd st) =
     emit (results st) (sort_key balance (balances st)) (transferAmount (sort_key balance (balances st)))"
  by (simp_all add: nextStateR_def Let_def)

lemma initialBalancesR_nonempty [simp]: "initialBalancesR rnd ps es = [] \<longleftrightarrow> ps = []"
  by (simp add: initialBalancesR_def)

lemma initialStateR_simps [simp]:
  "loopCount (initialStateR rnd ps es) = 0"
  "balances (initialStateR rnd ps es) = initialBalancesR rnd ps es"
  "results (initialStateR rnd ps es) = []"
  by (simp_all add: initialStateR_def)

lemma loopR_step:
  assumes "loopCount st < 100" and "balances st \<noteq> []"
  shows "settled (sort_key balance (balances st)) \<Longrightarrow>
           loopR rnd st = Inr (st\<lparr>balances := sort_key balance (balances st)\<rparr>)"
    and "\<not> settled (sort_key balance (balances st)) \<Longrightarrow> loopR rnd st = loopR rnd (nextStateR rnd st)"
  using assms by (subst loopR.simps, simp add: Let_def)+

lemma loopR_stop: "\<not> loopCount st < 100 \<Longrightarrow> loopR rnd st = Inr st"
  by (subst loopR.simps) simp

lemma iterationsR_step:
  assumes "loopCount st < 100" and "balances st \<noteq> []"
    and "\<not> settled (sort_key balance (balances st))"
  shows "iterationsR rnd st =
           st\<lparr>balances := sort_key balance (balances st)\<rparr> # iterationsR rnd (nextStateR rnd st)"
  using assms by (subst iterationsR.simps) (simp add: Let_def)

lemma iterationsR_stop:
  assumes "\<not> (loopCount st < 100 \<and> balances st \<noteq> [] \<and> \<not> settled (sort_key balance (balances st)))"
  shows "iterationsR rnd st = []"
  using assms by (subst iterationsR.simps) (auto simp: Let_def)

lemma loopR_Inr: "balances st \<noteq> [] \<Longrightarrow> \<exists>st'. loopR rnd st = Inr st'"
proof (induction rnd st rule: loopR.induct)
  case (1 rnd st)
  show ?case
  proof (cases "loopCount st < 100 \<and> \<not> settled (sort_key balance (balances st))")
    case True
    from "1.prems" have "balances (nextStateR rnd st) \<noteq> []" by simp
    with True "1.IH" "1.prems" show ?thesis
      by (simp add: loopR_step(2))
  next
    case False
    with "1.prems" show ?thesis
      by (cases "loopCount st < 100") (simp_all add: loopR_step(1) loopR_stop)
  qed
qed

lemma loopR_invariant:
  assumes "loopR rnd st = Inr st'" and "I st"
    and step: "\<And>s. I s \<Longrightarrow> loopCount s < 100 \<Longrightarrow> balances s \<noteq> [] \<Longrightarrow>
             \<not> settled (sort_key balance (balances s)) \<Longrightarrow> I (nextStateR rnd s)"
  shows "\<exists>s. I s \<and> results st' = results s"
  using assms
proof (induction rnd st rule: loopR.induct)
  case (1 rnd st)
  show ?case
  proof (cases "loopCount st < 100 \<and> balances st \<noteq> [] \<and> \<not> settled (sort_key balance (balances st))")
    case True
    with "1.prems"(1) have "loopR rnd (nextStateR rnd st) = Inr st'"
      by (simp add: loopR_step(2))
    moreover have "I (nextStateR rnd st)"
      using "1.prems"(3) [OF "1.prems"(2)] True by simp
    ultimately show ?thesis
      using "1.IH" "1.prems"(3) True by simp
  next
    case False
    have "results st' = results st"
    proof (cases "loopCount st < 100")
      case lt: True
      show ?thesis
      proof (cases "balances st = []")
        case True
        with lt "1.prems"(1) show ?thesis
          by (subst (asm) loopR.simps) simp
      next
        case ne: False
        with lt False "1.prems"(1) show ?thesis
          by (auto simp: loopR_step(1))
      qed
    next
      case False
      with "1.prems"(1) show ?thesis by (simp add: loopR_stop)
    qed
    with "1.prems"(2) show ?thesis by blast
  qed
qed

lemma iterationsR_invariant:
  assumes "it \<in> set (iterationsR rnd st)" and "I st"
    and step: "\<And>s. I s \<Longrightarrow> loopCount s < 100 \<Longrightarrow> balances s \<noteq> [] \<Longrightarrow>
             \<not> settled (sort_key balance (balances s)) \<Longrightarrow> I (nextStateR rnd s)"
  shows "\<exists>s. I s \<and> balances s \<noteq> [] \<and> it = s\<lparr>balances := sort_key balance (balances s)\<rparr>"
  using assms
proof (induction rnd st rule: iterationsR.induct)
  case (1 rnd st)
  show ?case
  proof (cases "loopCount st < 100 \<and> balances st \<noteq> [] \<and> \<not> settled (sort_key balance (balances st))")
    case True
    with "1.prems"(1) consider "it = st\<lparr>balances := sort_key balance (balances st)\<rparr>"
      | "it \<in> set (iterationsR rnd (nextStateR rnd st))"
      by (auto simp: iterationsR_step)
    then show ?thesis
    proof cases
      case 1
      with True "1.prems"(2) show ?thesis by blast
    next
      case 2
      moreover have "I (nextStateR rnd st)"
        using "1.prems"(3) [OF "1.prems"(2)] True by simp
      ultimately show ?thesis
        using "1.IH" "1.prems"(3) True by simp
    qed
  next
    case False
    with "1.prems"(1) show ?thesis by (simp add: iterationsR_stop)
  qed
qed

lemma loopR_results:
  "loopR rnd st = Inr st' \<Longrightarrow> results st' = results st @ concat (map emitted (iterationsR rnd st))"
proof (induction rnd st rule: loopR.induct)
  case (1 rnd st)
  show ?case
  proof (cases "loopCount st < 100 \<and> balances st \<noteq> [] \<and> \<not> settled (sort_key balance (balances st))")
    case True
    with "1.prems" have "loopR rnd (nextStateR rnd st) = Inr st'"
      by (simp add: loopR_step(2))
    with True "1.IH" have "results st' =
        results (nextStateR rnd st) @ concat (map emitted (iterationsR rnd (nextStateR rnd st)))"
      by simp
    moreover have "results (nextStateR rnd st) =
        results st @ emitted (st\<lparr>balances := sort_key balance (balances st)\<rparr>)"
      by (simp add: emitted_def emit_def)
    ultimately show ?thesis
      using True by (simp add: iterationsR_step)
  next
    case False
    then have "iterationsR rnd st = []" by (rule iterationsR_stop)
    moreover have "results st' = results st"
      using loopR_invariant [OF "1.prems", where I = "\<lambda>s. s = st"] False by auto
    ultimately show ?thesis by simp
  qed
qed

lemma computeSettlementsR_results:
  assumes "computeSettlementsR rnd ps es = Inr rs"
  shows "rs = concat (map emitted (iterationsR rnd (initialStateR rnd ps es)))"
proof (cases "ps = []")
  case True
  then have "iterationsR rnd (initialStateR rnd ps es) = []"
    by (intro iterationsR_stop) simp
  with True assms show ?thesis by (simp add: computeSettlementsR_def)
next
  case False
  with assms obtain st where st: "loopR rnd (initialStateR rnd ps es) = Inr st"
    and rs: "rs = results st"
    by (auto simp: computeSettlementsR_def split: sum.splits)
  from loopR_results [OF st] rs show ?thesis by simp
qed

text \<open>With the identity for the rounding function the computation is the exact one.\<close>

lemma exact_initialBalances: "initialBalancesR (\<lambda>x. x) ps es = initialBalances ps es"
  by (simp add: initialBalancesR_def initialBalances_def balanceOfR_def balanceOf_def
      paidByR_def paidBy_def averageR_def average_def totalSpentR_def totalSpent_def)

lemma exact_transfer: "transferR (\<lambda>x. x) bs a = transfer bs a"
  by (simp add: transferR_def transfer_def)

lemma exact_nextState: "nextStateR (\<lambda>x. x) st = nextState st"
  by (simp add: nextStateR_def nextState_def exact_transfer)

lemma exact_loop: "loopR (\<lambda>x. x) st = loop st"
proof (induction st rule: loop.induct)
  case (1 st)
  show ?case
    by (subst loopR.simps, subst loop.simps) (simp add: Let_def exact_nextState "1.IH")
qed

lemma exact_initialState: "initialStateR (\<lambda>x. x) ps es = initialState ps es"
  by (simp add: initialStateR_def initialState_def exact_initialBalances)

lemma exact_computeSettlements: "computeSettlementsR (\<lambda>x. x) ps es = computeSettlements ps es"
  by (simp add: computeSettlementsR_def computeSettlements_def exact_loop exact_initialState)

lemma exact_iterations: "iterationsR (\<lambda>x. x) st = iterations st"
proof (induction st rule: iterations.induct)
  case (1 st)
  show ?case
    by (subst iterationsR.simps, subst iterations.simps) (simp add: Let_def exact_nextState "1.IH")
qed

lemma rounding_zero: "rounding rnd \<Longrightarrow> rnd 0 = 0"
  by (simp add: rounding_def)

lemma rounding_idem: "rounding rnd \<Longrightarrow> rnd (rnd x) = rnd x"
  by (simp add: rounding_def)

lemma rounding_twice: "rounding rnd \<Longrightarrow> rnd y = y \<Longrightarrow> rnd (y + y) = y + y"
  using rounding_def [of rnd] by (metis mult_2)

text \<open>
  One pass on an array that has a balance that is not positive and holds rounded values
  only: both properties are kept, a settlement is pushed only from a debtor in debt, and
  the number of settlements plus the number of balances other than zero does not grow.
\<close>

lemma rounded_pass:
  assumes r: "rounding rnd" and ne: "bs \<noteq> []" and srt: "sorted (map balance bs)"
    and M: "\<exists>e\<in>set bs. balance e \<le> 0"
    and F: "\<forall>e\<in>set bs. rnd (balance e) = balance e"
  shows "\<exists>e\<in>set (transferR rnd bs (transferAmount bs)). balance e \<le> 0"
    and "\<forall>e\<in>set (transferR rnd bs (transferAmount bs)). rnd (balance e) = balance e"
    and "0 < transferAmount bs \<Longrightarrow> balance (debtor bs) < 0"
    and "length rs + max 1 (unsettled bs) \<le> length bs \<Longrightarrow>
         length (emit rs bs (transferAmount bs)) +
           max 1 (unsettled (transferR rnd bs (transferAmount bs))) \<le> length bs"
proof -
  note z = rounding_zero [OF r] and i = rounding_idem [OF r]
  have "(\<exists>e\<in>set (transferR rnd bs (transferAmount bs)). balance e \<le> 0) \<and>
        (\<forall>e\<in>set (transferR rnd bs (transferAmount bs)). rnd (balance e) = balance e) \<and>
        (0 < transferAmount bs \<longrightarrow> balance (debtor bs) < 0) \<and>
        (length rs + max 1 (unsettled bs) \<le> length bs \<longrightarrow>
         length (emit rs bs (transferAmount bs)) +
           max 1 (unsettled (transferR rnd bs (transferAmount bs))) \<le> length bs)"
    using ne srt
  proof (cases rule: sorted_entries_cases)
    case (single x)
    from M F have b: "balance x \<le> 0" and f: "rnd (balance x) = balance x"
      by (simp_all add: single)
    then have a: "transferAmount [x] = balance x"
      by (simp add: transferAmount_def)
    have "rnd (balance x + balance x) - balance x = balance x"
      using rounding_twice [OF r f] by (simp only:)
    then have "rnd (rnd (balance x + balance x) - balance x) = balance x"
      using f by (simp only:)
    then have "transferR rnd [x] (balance x) = [x]"
      by (simp only: transferR_single) simp
    moreover have "emit rs [x] (balance x) = rs"
      using b by (simp add: emit_def)
    ultimately show ?thesis
      unfolding single a using b f by (auto simp: max_def)
  next
    case (multi x mid z)
    have xz: "x \<in> set bs" "z \<in> set bs" by (simp_all add: multi(1))
    from M multi(2) have d: "balance x \<le> 0" by force
    from multi(2) xz have dc: "balance x \<le> balance z" by blast
    from F have f: "rnd (balance x) = balance x" "rnd (balance z) = balance z"
      "\<forall>y\<in>set mid. rnd (balance y) = balance y"
      by (simp_all add: multi(1))
    let ?a = "min \<bar>balance x\<bar> (balance z)"
    have a: "transferAmount bs = ?a" by (simp add: transferAmount_def multi(1))
    have t: "transferR rnd bs ?a =
        x\<lparr>balance := rnd (balance x + ?a)\<rparr> # mid @ [z\<lparr>balance := rnd (balance z - ?a)\<rparr>]"
      by (simp add: multi(1))
    have u: "unsettled bs =
        (if balance x \<noteq> 0 then 1 else 0) + unsettled mid + (if balance z \<noteq> 0 then 1 else 0)"
      by (simp add: multi(1) unsettled_multi)
    have len: "length bs = length mid + 2" by (simp add: multi(1))
    have db: "debtor bs = x" by (simp add: multi(1))
    consider (push) "0 < ?a" | (none) "?a = 0" | (neg) "?a < 0" by linarith
    then show ?thesis
    proof cases
      case push
      then have x: "balance x < 0" and zp: "0 < balance z"
        using d by (auto simp: min_def split: if_splits)
      then have "rnd (balance x + ?a) = 0 \<or> rnd (balance z - ?a) = 0"
        using z by (auto simp: min_def)
      then show ?thesis
        unfolding a t using push x zp f(3) i u len db
        by (auto simp: emit_def unsettled_multi)
    next
      case none
      then have "rnd (balance x + ?a) = balance x" "rnd (balance z - ?a) = balance z"
        using f by simp_all
      then show ?thesis
        unfolding a t using none d f u len db
        by (auto simp: emit_def unsettled_multi)
    next
      case neg
      then have zn: "balance z < 0" and az: "?a = balance z"
        by (auto simp: min_def split: if_splits)
      with dc have xn: "balance x < 0" by simp
      have "rnd (balance z - ?a) = 0" using z by (simp add: az)
      then show ?thesis
        unfolding a t using neg zn xn f(3) i u len db
        by (auto simp: emit_def unsettled_multi)
    qed
  qed
  then show "\<exists>e\<in>set (transferR rnd bs (transferAmount bs)). balance e \<le> 0"
    and "\<forall>e\<in>set (transferR rnd bs (transferAmount bs)). rnd (balance e) = balance e"
    and "0 < transferAmount bs \<Longrightarrow> balance (debtor bs) < 0"
    and "length rs + max 1 (unsettled bs) \<le> length bs \<Longrightarrow>
         length (emit rs bs (transferAmount bs)) +
           max 1 (unsettled (transferR rnd bs (transferAmount bs))) \<le> length bs"
    by blast+
qed

lemma exact_not_all_positive:
  assumes "ps \<noteq> []" and "uniqueIds ps" and "nonNegativeAmounts es"
  shows "\<exists>e\<in>set (initialBalances ps es). balance e \<le> 0"
proof (rule ccontr)
  assume "\<not> (\<exists>e\<in>set (initialBalances ps es). balance e \<le> 0)"
  then have "\<forall>x\<in>set (map balance (initialBalances ps es)). 0 < x" by auto
  moreover have "map balance (initialBalances ps es) \<noteq> []" using assms(1) by simp
  ultimately have "0 < sum_list (map balance (initialBalances ps es))"
    by (intro sum_list_positive)
  with sum_balances_nonpos [OF assms] show False by simp
qed

lemma initialBalancesR_rounded:
  assumes "rounding rnd"
  shows "\<forall>e\<in>set (initialBalancesR rnd ps es). rnd (balance e) = balance e"
  using rounding_idem [OF assms] by (auto simp: initialBalancesR_def balanceOfR_def)

lemma ids_initialBalancesR [simp]: "map id_p (initialBalancesR rnd ps es) = map id_p ps"
  by (simp add: initialBalancesR_def comp_def)

text \<open>What holds at every pass that pushes a settlement, whatever the rounding.\<close>

lemma pushing_pass:
  assumes "it \<in> set (iterationsR rnd (initialStateR rnd ps es))" and "s \<in> set (emitted it)"
  shows "0 < amount s \<and>
         fromId s = id_p (debtor (balances it)) \<and> debtor (balances it) \<in> set (balances it) \<and>
         toId s = id_p (creditor (balances it)) \<and> creditor (balances it) \<in> set (balances it) \<and>
         0 < balance (creditor (balances it)) \<and>
         balance (debtor (balances it)) \<noteq> 0 \<and>
         (\<forall>e\<in>set (balances it). balance (debtor (balances it)) \<le> balance e) \<and>
         mset (map id_p (balances it)) = mset (map id_p ps)"
proof -
  let ?I = "\<lambda>s::loop_state. mset (map id_p (balances s)) = mset (map id_p ps)"
  have "\<exists>s. ?I s \<and> balances s \<noteq> [] \<and> it = s\<lparr>balances := sort_key balance (balances s)\<rparr>"
    by (rule iterationsR_invariant [OF assms(1), where I = ?I]) simp_all
  then obtain s0 where I: "?I s0" and ne: "balances s0 \<noteq> []"
    and it: "it = s0\<lparr>balances := sort_key balance (balances s0)\<rparr>"
    by blast
  let ?bs = "balances it"
  have bs: "?bs = sort_key balance (balances s0)" by (simp add: it)
  have ne': "?bs \<noteq> []" and srt: "sorted (map balance ?bs)"
    and ids: "mset (map id_p ?bs) = mset (map id_p ps)"
    using I ne by (simp_all add: bs)
  from emitted_cases [OF assms(2)]
  have pos: "0 < transferAmount ?bs"
    and s: "s = \<lparr>fromId = id_p (debtor ?bs), toId = id_p (creditor ?bs), amount = transferAmount ?bs\<rparr>"
    by simp_all
  from pos have "0 < balance (creditor ?bs)" "balance (debtor ?bs) \<noteq> 0"
    by (auto simp: transferAmount_def)
  moreover have "\<forall>e\<in>set ?bs. balance (debtor ?bs) \<le> balance e"
    using sorted_extremes [OF ne' srt] by blast
  ultimately show ?thesis
    using pos ids debtor_in_set [OF ne'] creditor_in_set [OF ne'] by (simp add: s)
qed

text \<open>With initial balances that are not all positive the debtor of every pushing pass
  is in debt.\<close>

lemma pushing_pass_debtor:
  assumes "rounding rnd" and "\<exists>e\<in>set (initialBalancesR rnd ps es). balance e \<le> 0"
    and "it \<in> set (iterationsR rnd (initialStateR rnd ps es))" and "s \<in> set (emitted it)"
  shows "balance (debtor (balances it)) < 0"
proof -
  let ?I = "\<lambda>s::loop_state. (\<exists>e\<in>set (balances s). balance e \<le> 0) \<and>
                 (\<forall>e\<in>set (balances s). rnd (balance e) = balance e)"
  have "\<exists>s. ?I s \<and> balances s \<noteq> [] \<and> it = s\<lparr>balances := sort_key balance (balances s)\<rparr>"
  proof (rule iterationsR_invariant [OF assms(3), where I = ?I])
    show "?I (initialStateR rnd ps es)"
      using assms(2) initialBalancesR_rounded [OF assms(1)] by simp
  next
    fix s :: loop_state
    assume I: "?I s" and ne: "balances s \<noteq> []"
    let ?bs = "sort_key balance (balances s)"
    have "?bs \<noteq> []" "sorted (map balance ?bs)" "\<exists>e\<in>set ?bs. balance e \<le> 0"
      "\<forall>e\<in>set ?bs. rnd (balance e) = balance e"
      using I ne by simp_all
    from rounded_pass(1,2) [OF assms(1) this] show "?I (nextStateR rnd s)" by simp
  qed
  then obtain s0 where I: "?I s0" and ne: "balances s0 \<noteq> []"
    and it: "it = s0\<lparr>balances := sort_key balance (balances s0)\<rparr>"
    by blast
  let ?bs = "balances it"
  have "?bs \<noteq> []" "sorted (map balance ?bs)" "\<exists>e\<in>set ?bs. balance e \<le> 0"
    "\<forall>e\<in>set ?bs. rnd (balance e) = balance e"
    using I ne by (simp_all add: it)
  from rounded_pass(3) [OF assms(1) this] emitted_cases [OF assms(4)] show ?thesis
    by simp
qed

lemma settlement_countR:
  assumes "rounding rnd" and "\<exists>e\<in>set (initialBalancesR rnd ps es). balance e \<le> 0"
    and "computeSettlementsR rnd ps es = Inr rs"
  shows "Suc (length rs) \<le> length ps"
proof -
  from assms(2) have ne: "ps \<noteq> []" by (auto simp: initialBalancesR_def)
  with assms(3) obtain st where st: "loopR rnd (initialStateR rnd ps es) = Inr st"
    and rs: "rs = results st"
    by (auto simp: computeSettlementsR_def split: sum.splits)
  let ?I = "\<lambda>s::loop_state. (\<exists>e\<in>set (balances s). balance e \<le> 0) \<and>
                 (\<forall>e\<in>set (balances s). rnd (balance e) = balance e) \<and>
                 length (balances s) = length ps \<and>
                 length (results s) + max 1 (unsettled (balances s)) \<le> length (balances s)"
  have "\<exists>s. ?I s \<and> results st = results s"
  proof (rule loopR_invariant [OF st, where I = ?I])
    have "length (initialBalancesR rnd ps es) = length ps"
      by (simp add: initialBalancesR_def)
    moreover have "max 1 (unsettled (initialBalancesR rnd ps es)) \<le> length (initialBalancesR rnd ps es)"
      using unsettled_le_length [of "initialBalancesR rnd ps es"] ne
      by (cases ps) (simp_all add: initialBalancesR_def)
    ultimately show "?I (initialStateR rnd ps es)"
      using assms(2) initialBalancesR_rounded [OF assms(1)] by simp
  next
    fix s :: loop_state
    assume I: "?I s" and ne: "balances s \<noteq> []"
    let ?bs = "sort_key balance (balances s)"
    have p: "?bs \<noteq> []" "sorted (map balance ?bs)" "\<exists>e\<in>set ?bs. balance e \<le> 0"
      "\<forall>e\<in>set ?bs. rnd (balance e) = balance e"
      using I ne by simp_all
    have "length (results s) + max 1 (unsettled ?bs) \<le> length ?bs"
      using I by simp
    from rounded_pass(1,2) [OF assms(1) p] rounded_pass(4) [OF assms(1) p this] I
    show "?I (nextStateR rnd s)" by simp
  qed
  then obtain s where I: "?I s" and res: "results st = results s" by blast
  from I have "length (results s) + 1 \<le> length ps" by (simp add: max_def split: if_splits)
  with res have "length (results st) + 1 \<le> length ps" by simp
  then show ?thesis by (simp add: rs)
qed

section \<open>Values of the rounding\<close>

lemmas computeR_defs =
  computeSettlementsR_def initialStateR_def initialBalancesR_def balanceOfR_def paidByR_def
  averageR_def totalSpentR_def nextStateR_def transferR_def emit_def transferAmount_def
  settled_def debtor_def creditor_def Let_def

lemma round53_value_1: "round53 (- 180) = - 180"
  by (subst round53_at [where k = "7"]) (simp_all add: roundEven_def powr_neg_numeral Let_def)

lemma round53_value_2: "round53 (- 90) = - 90"
  by (subst round53_at [where k = "6"]) (simp_all add: roundEven_def powr_neg_numeral Let_def)

lemma round53_value_3: "round53 (- (4691249611844267 / 140737488355328)) = - (4691249611844267 / 140737488355328)"
  by (subst round53_at [where k = "5"]) (simp_all add: roundEven_def powr_neg_numeral Let_def)

lemma round53_value_4: "round53 (- (3283874728290987 / 140737488355328)) = - (3283874728290987 / 140737488355328)"
  by (subst round53_at [where k = "4"]) (simp_all add: roundEven_def powr_neg_numeral Let_def)

lemma round53_value_5: "round53 (- (1 / 140737488355328)) = - (1 / 140737488355328)"
  by (subst round53_at [where k = "- 47"]) (simp_all add: roundEven_def powr_neg_numeral Let_def)

lemma round53_value_6: "round53 (15 / 128) = 15 / 128"
  by (subst round53_at [where k = "- 4"]) (simp_all add: roundEven_def powr_neg_numeral Let_def)

lemma round53_value_7: "round53 (1 / 8) = 1 / 8"
  by (subst round53_at [where k = "- 3"]) (simp_all add: roundEven_def powr_neg_numeral Let_def)

lemma round53_value_8: "round53 (15 / 64) = 15 / 64"
  by (subst round53_at [where k = "- 3"]) (simp_all add: roundEven_def powr_neg_numeral Let_def)

lemma round53_value_9: "round53 (1 / 4) = 1 / 4"
  by (subst round53_at [where k = "- 2"]) (simp_all add: roundEven_def powr_neg_numeral Let_def)

lemma round53_value_10: "round53 (45 / 128) = 45 / 128"
  by (subst round53_at [where k = "- 2"]) (simp_all add: roundEven_def powr_neg_numeral Let_def)

lemma round53_value_11: "round53 (15 / 32) = 15 / 32"
  by (subst round53_at [where k = "- 2"]) (simp_all add: roundEven_def powr_neg_numeral Let_def)

lemma round53_value_12: "round53 (1 / 2) = 1 / 2"
  by (subst round53_at [where k = "- 1"]) (simp_all add: roundEven_def powr_neg_numeral Let_def)

lemma round53_value_13: "round53 (75 / 128) = 75 / 128"
  by (subst round53_at [where k = "- 1"]) (simp_all add: roundEven_def powr_neg_numeral Let_def)

lemma round53_value_14: "round53 (45 / 64) = 45 / 64"
  by (subst round53_at [where k = "- 1"]) (simp_all add: roundEven_def powr_neg_numeral Let_def)

lemma round53_value_15: "round53 (3 / 4) = 3 / 4"
  by (subst round53_at [where k = "- 1"]) (simp_all add: roundEven_def powr_neg_numeral Let_def)

lemma round53_value_16: "round53 (105 / 128) = 105 / 128"
  by (subst round53_at [where k = "- 1"]) (simp_all add: roundEven_def powr_neg_numeral Let_def)

lemma round53_value_17: "round53 (15 / 16) = 15 / 16"
  by (subst round53_at [where k = "- 1"]) (simp_all add: roundEven_def powr_neg_numeral Let_def)

lemma round53_value_18: "round53 (1) = 1"
  by (subst round53_at [where k = "0"]) (simp_all add: roundEven_def powr_neg_numeral Let_def)

lemma round53_value_19: "round53 (135 / 128) = 135 / 128"
  by (subst round53_at [where k = "0"]) (simp_all add: roundEven_def powr_neg_numeral Let_def)

lemma round53_value_20: "round53 (9 / 8) = 9 / 8"
  by (subst round53_at [where k = "0"]) (simp_all add: roundEven_def powr_neg_numeral Let_def)

lemma round53_value_21: "round53 (75 / 64) = 75 / 64"
  by (subst round53_at [where k = "0"]) (simp_all add: roundEven_def powr_neg_numeral Let_def)

lemma round53_value_22: "round53 (2) = 2"
  by (subst round53_at [where k = "1"]) (simp_all add: roundEven_def powr_neg_numeral Let_def)

lemma round53_value_23: "round53 (10) = 10"
  by (subst round53_at [where k = "3"]) (simp_all add: roundEven_def powr_neg_numeral Let_def)

lemma round53_value_24: "round53 (1641937364145493 / 70368744177664) = 1641937364145493 / 70368744177664"
  by (subst round53_at [where k = "4"]) (simp_all add: roundEven_def powr_neg_numeral Let_def)

lemma round53_value_25: "round53 (100 / 3) = 4691249611844267 / 140737488355328"
  by (subst round53_at [where k = "5"]) (simp_all add: roundEven_def powr_neg_numeral Let_def)

lemma round53_value_26: "round53 (7975124340135253 / 140737488355328) = 7975124340135253 / 140737488355328"
  by (subst round53_at [where k = "5"]) (simp_all add: roundEven_def powr_neg_numeral Let_def)

lemma round53_value_27: "round53 (90) = 90"
  by (subst round53_at [where k = "6"]) (simp_all add: roundEven_def powr_neg_numeral Let_def)

lemma round53_value_28: "round53 (100) = 100"
  by (subst round53_at [where k = "6"]) (simp_all add: roundEven_def powr_neg_numeral Let_def)

lemma round53_value_29: "round53 (4503599627370495 / 4) = 4503599627370495 / 4"
  by (subst round53_at [where k = "49"]) (simp_all add: roundEven_def powr_neg_numeral Let_def)

lemma round53_value_30: "round53 (9007199254740991 / 8) = 9007199254740991 / 8"
  by (subst round53_at [where k = "49"]) (simp_all add: roundEven_def powr_neg_numeral Let_def)

lemma round53_value_31: "round53 (1125899906842624) = 1125899906842624"
  by (subst round53_at [where k = "50"]) (simp_all add: roundEven_def powr_neg_numeral Let_def)

lemma round53_value_32: "round53 (144115188075855887 / 128) = 1125899906842624"
  by (subst round53_at [where k = "50"]) (simp_all add: roundEven_def powr_neg_numeral Let_def)

lemma round53_value_33: "round53 (72057594037927995 / 64) = 1125899906842625"
  by (subst round53_at [where k = "50"]) (simp_all add: roundEven_def powr_neg_numeral Let_def)

lemma round53_value_34: "round53 (9007199254740991 / 4) = 9007199254740991 / 4"
  by (subst round53_at [where k = "50"]) (simp_all add: roundEven_def powr_neg_numeral Let_def)

lemma round53_value_35: "round53 (20266198323167248 / 3) = 6755399441055749"
  by (subst round53_at [where k = "52"]) (simp_all add: roundEven_def powr_neg_numeral Let_def)

lemma round53_value_36: "round53 (6755399441055750) = 6755399441055750"
  by (subst round53_at [where k = "52"]) (simp_all add: roundEven_def powr_neg_numeral Let_def)

lemma round53_value_37: "round53 (13510798882111500) = 13510798882111500"
  by (subst round53_at [where k = "53"]) (simp_all add: roundEven_def powr_neg_numeral Let_def)

lemma round53_value_38: "round53 (20266198323167250) = 20266198323167248"
  by (subst round53_at [where k = "54"]) (simp_all add: roundEven_def powr_neg_numeral Let_def)

lemmas round53_values =
  round53_value_1 round53_value_2 round53_value_3 round53_value_4
  round53_value_5 round53_value_6 round53_value_7 round53_value_8
  round53_value_9 round53_value_10 round53_value_11 round53_value_12
  round53_value_13 round53_value_14 round53_value_15 round53_value_16
  round53_value_17 round53_value_18 round53_value_19 round53_value_20
  round53_value_21 round53_value_22 round53_value_23 round53_value_24
  round53_value_25 round53_value_26 round53_value_27 round53_value_28
  round53_value_29 round53_value_30 round53_value_31 round53_value_32
  round53_value_33 round53_value_34 round53_value_35 round53_value_36
  round53_value_37 round53_value_38

section \<open>The rounding error of the sum of the balances\<close>

lemma roundoff_nonneg: "roundoff u eta rnd \<Longrightarrow> 0 \<le> u" "roundoff u eta rnd \<Longrightarrow> 0 \<le> eta"
  by (simp_all add: roundoff_def)

lemma roundoff_error: "roundoff u eta rnd \<Longrightarrow> \<bar>rnd x - x\<bar> \<le> u * \<bar>x\<bar> + eta"
  by (simp add: roundoff_def)

lemma roundoff_abs: "roundoff u eta rnd \<Longrightarrow> \<bar>rnd x\<bar> \<le> (1 + u) * \<bar>x\<bar> + eta"
  using roundoff_error [of u eta rnd x] by (simp add: algebra_simps)

text \<open>The error of a rounded sum, relative to the sum of the absolute values.\<close>

lemma rounded_sum_error:
  assumes "roundoff u eta rnd"
  shows "\<bar>foldl (\<lambda>sum e. rnd (sum + amount_e e)) s es - (s + sum_list (map amount_e es))\<bar>
           \<le> ((1 + u) ^ length es - 1) * (\<bar>s\<bar> + sum_list (map (\<lambda>e. \<bar>amount_e e\<bar>) es)) +
              real (length es) * (1 + u) ^ length es * eta"
proof (induction es arbitrary: s)
  case Nil
  show ?case by simp
next
  case (Cons e es)
  note u = roundoff_nonneg(1) [OF assms] and eta = roundoff_nonneg(2) [OF assms]
  define a where "a = amount_e e"
  define s1 where "s1 = rnd (s + a)"
  define X where "X = \<bar>s\<bar> + \<bar>a\<bar>"
  define Y where "Y = sum_list (map (\<lambda>e. \<bar>amount_e e\<bar>) es)"
  define g where "g = (1 + u) ^ length es"
  define m where "m = real (length es)"
  define F where "F = foldl (\<lambda>sum e. rnd (sum + amount_e e)) s1 es"
  define S where "S = sum_list (map amount_e es)"
  have g1: "1 \<le> g" unfolding g_def using u by (intro one_le_power) simp
  have m0: "0 \<le> m" by (simp add: m_def)
  have Y0: "0 \<le> Y" unfolding Y_def by (intro sum_list_nonneg) auto
  have X0: "0 \<le> X" by (simp add: X_def)
  have sa: "\<bar>s + a\<bar> \<le> X" by (simp add: X_def)
  have e1: "\<bar>s1 - (s + a)\<bar> \<le> u * X + eta"
  proof -
    have "\<bar>s1 - (s + a)\<bar> \<le> u * \<bar>s + a\<bar> + eta"
      unfolding s1_def by (rule roundoff_error [OF assms])
    moreover have "u * \<bar>s + a\<bar> \<le> u * X" using sa u by (rule mult_left_mono)
    ultimately show ?thesis by linarith
  qed
  have a1: "\<bar>s1\<bar> \<le> (1 + u) * X + eta"
  proof -
    have "\<bar>s1\<bar> \<le> (1 + u) * \<bar>s + a\<bar> + eta"
      unfolding s1_def by (rule roundoff_abs [OF assms])
    moreover have "(1 + u) * \<bar>s + a\<bar> \<le> (1 + u) * X"
      using sa u by (intro mult_left_mono) simp_all
    ultimately show ?thesis by linarith
  qed
  have "\<bar>F - (s1 + S)\<bar> \<le> (g - 1) * (\<bar>s1\<bar> + Y) + m * g * eta"
    unfolding F_def S_def g_def Y_def m_def by (rule Cons.IH)
  moreover have "(g - 1) * (\<bar>s1\<bar> + Y) \<le> (g - 1) * ((1 + u) * X + eta + Y)"
    using a1 g1 by (intro mult_left_mono) simp_all
  ultimately have e2: "\<bar>F - (s1 + S)\<bar> \<le> (g - 1) * ((1 + u) * X + eta + Y) + m * g * eta"
    by linarith
  have "\<bar>F - (s + a + S)\<bar> \<le> \<bar>F - (s1 + S)\<bar> + \<bar>s1 - (s + a)\<bar>"
    by linarith
  also have "\<dots> \<le> (g - 1) * ((1 + u) * X + eta + Y) + m * g * eta + (u * X + eta)"
    using e1 e2 by linarith
  also have "\<dots> = (g * (1 + u) - 1) * X + (g - 1) * Y + (m + 1) * g * eta"
    by (simp add: algebra_simps)
  also have "\<dots> \<le> (g * (1 + u) - 1) * X + (g * (1 + u) - 1) * Y + (m + 1) * (g * (1 + u)) * eta"
  proof -
    have "g - 1 \<le> g * (1 + u) - 1" using g1 u by (simp add: algebra_simps)
    then have "(g - 1) * Y \<le> (g * (1 + u) - 1) * Y" using Y0 by (rule mult_right_mono)
    moreover have "g \<le> g * (1 + u)" using g1 u by (simp add: algebra_simps)
    then have "(m + 1) * g \<le> (m + 1) * (g * (1 + u))" using m0 by (intro mult_left_mono) simp_all
    then have "(m + 1) * g * eta \<le> (m + 1) * (g * (1 + u)) * eta" using eta by (rule mult_right_mono)
    ultimately show ?thesis by linarith
  qed
  also have "\<dots> = ((1 + u) ^ length (e # es) - 1) * (\<bar>s\<bar> + sum_list (map (\<lambda>e. \<bar>amount_e e\<bar>) (e # es))) +
      real (length (e # es)) * (1 + u) ^ length (e # es) * eta"
    by (simp add: g_def X_def Y_def a_def m_def algebra_simps)
  finally show ?case
    by (simp add: F_def s1_def a_def S_def algebra_simps)
qed

lemma sum_by_payer:
  fixes f :: "expense \<Rightarrow> real"
  assumes "distinct (map id_p ps)"
  shows "sum_list (map (\<lambda>p. sum_list (map f (filter (\<lambda>e. payerId e = id_p p) es))) ps) =
           sum_list (map f (filter (\<lambda>e. payerId e \<in> set (map id_p ps)) es))"
proof (induction es)
  case Nil
  show ?case by simp
next
  case (Cons e es)
  have c: "sum_list (map f (filter (\<lambda>e. payerId e = id_p p) (e # es))) =
      (if payerId e = id_p p then f e else 0) +
      sum_list (map f (filter (\<lambda>e. payerId e = id_p p) es))" for p
    by simp
  have "sum_list (map (\<lambda>p. sum_list (map f (filter (\<lambda>e. payerId e = id_p p) (e # es)))) ps) =
          sum_list (map (\<lambda>p. if payerId e = id_p p then f e else 0) ps) +
          sum_list (map (\<lambda>p. sum_list (map f (filter (\<lambda>e. payerId e = id_p p) es))) ps)"
    by (simp only: c sum_list_addf)
  also have "sum_list (map (\<lambda>p. if payerId e = id_p p then f e else 0) ps) =
          (if payerId e \<in> set (map id_p ps) then f e else 0)"
    by (rule sum_list_indicator [OF assms])
  finally show ?case using Cons.IH by simp
qed

text \<open>
  The sum of the rounded balances, with the amounts of unknown payers added, is bounded
  by the errors of: the sums paid, the total, the average, and the differences.
\<close>

lemma balance_sum_error:
  assumes r: "roundoff u eta rnd" and ne: "ps \<noteq> []" and d: "distinct (map id_p ps)"
  shows "\<bar>sum_list (map balance (initialBalancesR rnd ps es)) +
          sum_list (map amount_e (filter (\<lambda>e. payerId e \<notin> set (map id_p ps)) es))\<bar>
         \<le> (2 * ((1 + u) ^ length es - 1) + u * (1 + u) ^ length es * (3 + u)) *
             sum_list (map (\<lambda>e. \<bar>amount_e e\<bar>) es) +
            (real (length es) * (1 + u) ^ length es * (1 + u) * (real (length ps) + 1 + u) +
             real (length ps) * (2 + u)) * eta"
proof -
  note u = roundoff_nonneg(1) [OF r] and eta = roundoff_nonneg(2) [OF r]
  define n where "n = real (length ps)"
  define g where "g = (1 + u) ^ length es"
  define N where "N = real (length es) * g * eta"
  define A where "A = sum_list (map (\<lambda>e. \<bar>amount_e e\<bar>) es)"
  define T where "T = sum_list (map amount_e es)"
  define That where "That = totalSpentR rnd es"
  define avg where "avg = averageR rnd ps es"
  define P where "P = (\<lambda>p::participant. sum_list (map amount_e (filter (\<lambda>e. payerId e = id_p p) es)))"
  define Ab where "Ab = (\<lambda>p::participant. sum_list (map (\<lambda>e. \<bar>amount_e e\<bar>) (filter (\<lambda>e. payerId e = id_p p) es)))"
  define ph where "ph = (\<lambda>p::participant. paidByR rnd es (id_p p))"
  define bh where "bh = (\<lambda>p::participant. balanceOfR rnd ps es (id_p p))"
  define U where "U = sum_list (map amount_e (filter (\<lambda>e. payerId e \<notin> set (map id_p ps)) es))"
  define K where "K = sum_list (map amount_e (filter (\<lambda>e. payerId e \<in> set (map id_p ps)) es))"
  define AK where "AK = sum_list (map (\<lambda>e. \<bar>amount_e e\<bar>) (filter (\<lambda>e. payerId e \<in> set (map id_p ps)) es))"
  have n: "0 < n" using ne by (simp add: n_def)
  have g1: "1 \<le> g" unfolding g_def using u by (intro one_le_power) simp
  have N0: "0 \<le> N" unfolding N_def using g1 eta by simp
  have A0: "0 \<le> A" unfolding A_def by (intro sum_list_nonneg) auto
  have AK0: "0 \<le> AK" unfolding AK_def by (intro sum_list_nonneg) auto
  have AK: "AK \<le> A"
    unfolding AK_def A_def by (induction es) auto
  have TKU: "T = K + U"
    unfolding T_def K_def U_def by (induction es) auto
  have sumP: "sum_list (map P ps) = K"
    unfolding P_def K_def by (rule sum_by_payer [OF d])
  have sumAb: "sum_list (map Ab ps) = AK"
    unfolding Ab_def AK_def by (rule sum_by_payer [OF d])
  have absT: "\<bar>T\<bar> \<le> A"
    unfolding T_def A_def using sum_list_abs [of "map amount_e es"] by (simp add: comp_def)
  have absP: "\<bar>P p\<bar> \<le> Ab p" for p
    unfolding P_def Ab_def
    using sum_list_abs [of "map amount_e (filter (\<lambda>e. payerId e = id_p p) es)"]
    by (simp add: comp_def)
  have Ab0: "0 \<le> Ab p" for p
    unfolding Ab_def by (intro sum_list_nonneg) auto
  have a: "\<bar>That - T\<bar> \<le> (g - 1) * A + N"
    using rounded_sum_error [OF r, of 0 es]
    by (simp add: That_def T_def totalSpentR_def g_def A_def N_def)
  have b: "\<bar>ph p - P p\<bar> \<le> (g - 1) * Ab p + N" for p
  proof -
    let ?es = "filter (\<lambda>e. payerId e = id_p p) es"
    have le: "(1 + u) ^ length ?es \<le> g"
      unfolding g_def using u by (intro power_increasing) simp_all
    have p0: "0 \<le> (1 + u) ^ length ?es" using u by simp
    have "\<bar>ph p - P p\<bar> \<le> ((1 + u) ^ length ?es - 1) * Ab p +
        real (length ?es) * (1 + u) ^ length ?es * eta"
      using rounded_sum_error [OF r, of 0 ?es]
      by (simp add: ph_def P_def paidByR_def Ab_def)
    moreover have "((1 + u) ^ length ?es - 1) * Ab p \<le> (g - 1) * Ab p"
      using le Ab0 by (intro mult_right_mono) simp_all
    moreover have "real (length ?es) * (1 + u) ^ length ?es * eta \<le> N"
    proof -
      have "real (length ?es) * (1 + u) ^ length ?es \<le> real (length es) * g"
        using le p0 by (intro mult_mono) simp_all
      then show ?thesis unfolding N_def using eta by (rule mult_right_mono)
    qed
    ultimately show ?thesis by linarith
  qed
  have e: "\<bar>ph p\<bar> \<le> g * Ab p + N" for p
    using b [of p] absP [of p] by (simp add: algebra_simps)
  have f: "\<bar>That\<bar> \<le> g * A + N"
    using a absT by (simp add: algebra_simps)
  have g4: "\<bar>That - n * avg\<bar> \<le> u * (g * A + N) + n * eta"
  proof -
    have "\<bar>avg - That / n\<bar> \<le> u * \<bar>That / n\<bar> + eta"
      unfolding avg_def averageR_def That_def n_def by (rule roundoff_error [OF r])
    then have "n * \<bar>avg - That / n\<bar> \<le> n * (u * \<bar>That / n\<bar> + eta)"
      using n by (intro mult_left_mono) simp_all
    moreover have "n * \<bar>avg - That / n\<bar> = \<bar>That - n * avg\<bar>"
    proof -
      have "That - n * avg = n * (That / n - avg)" using n by (simp add: algebra_simps)
      then show ?thesis using n by (simp add: abs_mult abs_minus_commute)
    qed
    moreover have "n * (u * \<bar>That / n\<bar> + eta) = u * \<bar>That\<bar> + n * eta"
      using n by (simp add: algebra_simps)
    ultimately have "\<bar>That - n * avg\<bar> \<le> u * \<bar>That\<bar> + n * eta" by simp
    moreover have "u * \<bar>That\<bar> \<le> u * (g * A + N)" using f u by (rule mult_left_mono)
    ultimately show ?thesis by linarith
  qed
  have navg: "n * \<bar>avg\<bar> \<le> (1 + u) * (g * A + N) + n * eta"
  proof -
    have "\<bar>n * avg\<bar> \<le> \<bar>That\<bar> + \<bar>That - n * avg\<bar>" by linarith
    also have "\<dots> \<le> (g * A + N) + (u * (g * A + N) + n * eta)" using f g4 by linarith
    finally show ?thesis using n by (simp add: abs_mult algebra_simps)
  qed
  have h: "\<bar>bh p - (ph p - avg)\<bar> \<le> u * (g * Ab p) + (u * N + u * \<bar>avg\<bar> + eta)" for p
  proof -
    have "\<bar>bh p - (ph p - avg)\<bar> \<le> u * \<bar>ph p - avg\<bar> + eta"
      unfolding bh_def balanceOfR_def ph_def avg_def by (rule roundoff_error [OF r])
    moreover have "u * \<bar>ph p - avg\<bar> \<le> u * (g * Ab p + N + \<bar>avg\<bar>)"
      using e [of p] u by (intro mult_left_mono) linarith+
    ultimately show ?thesis by (simp add: algebra_simps)
  qed
  define E1 where "E1 = sum_list (map (\<lambda>p. bh p - (ph p - avg)) ps)"
  define E2 where "E2 = sum_list (map (\<lambda>p. ph p - P p) ps)"
  have S: "sum_list (map balance (initialBalancesR rnd ps es)) = sum_list (map bh ps)"
    by (simp add: initialBalancesR_def bh_def comp_def)
  have const: "sum_list (map (\<lambda>p. c) ps) = n * c" for c :: real
    by (simp add: n_def sum_list_triv)
  have dec: "sum_list (map bh ps) + U = E1 + E2 + (T - That) + (That - n * avg)"
  proof -
    have "E1 = sum_list (map bh ps) - sum_list (map ph ps) + n * avg"
      unfolding E1_def by (simp add: sum_list_subtractf sum_list_addf const algebra_simps)
    moreover have "E2 = sum_list (map ph ps) - K"
      unfolding E2_def by (simp add: sum_list_subtractf sumP)
    ultimately show ?thesis using TKU by simp
  qed
  have b1: "\<bar>E1\<bar> \<le> u * (g * A) + n * (u * N + eta) + u * ((1 + u) * (g * A + N) + n * eta)"
  proof -
    have "\<bar>E1\<bar> \<le> sum_list (map (\<lambda>p. \<bar>bh p - (ph p - avg)\<bar>) ps)"
      unfolding E1_def using sum_list_abs [of "map (\<lambda>p. bh p - (ph p - avg)) ps"]
      by (simp add: comp_def)
    also have "\<dots> \<le> sum_list (map (\<lambda>p. u * (g * Ab p) + (u * N + u * \<bar>avg\<bar> + eta)) ps)"
      by (intro sum_list_mono h)
    also have "\<dots> = u * (g * AK) + n * (u * N + eta) + u * (n * \<bar>avg\<bar>)"
      by (simp add: sum_list_addf sum_list_const_mult const sumAb algebra_simps)
    also have "\<dots> \<le> u * (g * A) + n * (u * N + eta) + u * ((1 + u) * (g * A + N) + n * eta)"
    proof -
      have "g * AK \<le> g * A" using AK g1 by (intro mult_left_mono) simp_all
      then have "u * (g * AK) \<le> u * (g * A)" using u by (rule mult_left_mono)
      moreover have "u * (n * \<bar>avg\<bar>) \<le> u * ((1 + u) * (g * A + N) + n * eta)"
        using navg u by (rule mult_left_mono)
      ultimately show ?thesis by linarith
    qed
    finally show ?thesis .
  qed
  have b2: "\<bar>E2\<bar> \<le> (g - 1) * A + n * N"
  proof -
    have "\<bar>E2\<bar> \<le> sum_list (map (\<lambda>p. \<bar>ph p - P p\<bar>) ps)"
      unfolding E2_def using sum_list_abs [of "map (\<lambda>p. ph p - P p) ps"]
      by (simp add: comp_def)
    also have "\<dots> \<le> sum_list (map (\<lambda>p. (g - 1) * Ab p + N) ps)"
      by (intro sum_list_mono b)
    also have "\<dots> = (g - 1) * AK + n * N"
      by (simp add: sum_list_addf sum_list_const_mult const sumAb)
    also have "\<dots> \<le> (g - 1) * A + n * N"
      using AK g1 by (simp add: mult_left_mono)
    finally show ?thesis .
  qed
  have b3: "\<bar>T - That\<bar> \<le> (g - 1) * A + N"
    using a by (simp add: abs_minus_commute)
  have "\<bar>sum_list (map bh ps) + U\<bar> \<le> \<bar>E1\<bar> + \<bar>E2\<bar> + \<bar>T - That\<bar> + \<bar>That - n * avg\<bar>"
    unfolding dec by linarith
  also have "\<dots> \<le> (u * (g * A) + n * (u * N + eta) + u * ((1 + u) * (g * A + N) + n * eta)) +
      ((g - 1) * A + n * N) + ((g - 1) * A + N) + (u * (g * A + N) + n * eta)"
    using b1 b2 b3 g4 by linarith
  also have "\<dots> = (2 * (g - 1) + u * g * (3 + u)) * A +
      (real (length es) * g * (1 + u) * (n + 1 + u) + n * (2 + u)) * eta"
    by (simp add: N_def algebra_simps)
  finally show ?thesis
    by (simp add: S U_def g_def A_def n_def)
qed

section \<open>The claims\<close>



text \<open>
  C2. A pass that starts below the cap sorts the array ascending (a sorted permutation),
  so that the debtor, the first element, has the smallest balance and the creditor, the
  last, the largest. With both inside the band the loop returns, its results unchanged.
  Otherwise the transfer amount is the minimum of the debtor's absolute balance and the
  creditor's balance, a settlement from debtor to creditor over that amount is appended
  exactly when the amount is positive, the amount is added to the debtor's balance and
  subtracted from the creditor's (both on the one element when the array has one), and
  the loop goes on with the counter increased.
\<close>

theorem greedy_iteration:
  assumes "loopCount st < 100" and "balances st \<noteq> []"
  shows "let bs = sort_key balance (balances st);
             d = debtor bs; c = creditor bs;
             a = min \<bar>balance d\<bar> (balance c)
         in sorted (map balance bs) \<and> mset bs = mset (balances st) \<and>
            d \<in> set (balances st) \<and> c \<in> set (balances st) \<and>
            (\<forall>e\<in>set (balances st). balance d \<le> balance e \<and> balance e \<le> balance c) \<and>
            (if \<bar>balance d\<bar> < 1 \<and> \<bar>balance c\<bar> < 1
             then loop st = Inr (st\<lparr>balances := bs\<rparr>)
             else loop st = loop
                    \<lparr>loopCount = loopCount st + 1,
                     balances =
                       (if length bs = 1 then [d\<lparr>balance := balance d + a - a\<rparr>]
                        else d\<lparr>balance := balance d + a\<rparr> # butlast (tl bs) @
                             [c\<lparr>balance := balance c - a\<rparr>]),
                     results =
                       (if a > 0
                        then results st @ [\<lparr>fromId = id_p d, toId = id_p c, amount = a\<rparr>]
                        else results st)\<rparr>)"
proof -
  let ?bs = "sort_key balance (balances st)"
  have ne: "?bs \<noteq> []" using assms(2) by simp
  have srt: "sorted (map balance ?bs)" by simp
  have mem: "debtor ?bs \<in> set (balances st)" "creditor ?bs \<in> set (balances st)"
    using debtor_in_set [OF ne] creditor_in_set [OF ne] by simp_all
  have ext: "\<forall>e\<in>set (balances st). balance (debtor ?bs) \<le> balance e \<and>
                 balance e \<le> balance (creditor ?bs)"
    using sorted_extremes [OF ne srt] by simp
  have brk: "settled ?bs \<Longrightarrow> loop st = Inr (st\<lparr>balances := ?bs\<rparr>)"
    using assms(1) ne by (subst loop.simps) (simp add: Let_def)
  have cont: "\<not> settled ?bs \<Longrightarrow> loop st = loop (nextState st)"
    using assms(1) ne by (subst loop.simps) (simp add: Let_def)
  have nxt: "nextState st =
      \<lparr>loopCount = loopCount st + 1,
       balances = transfer ?bs (transferAmount ?bs),
       results = emit (results st) ?bs (transferAmount ?bs)\<rparr>"
    by (simp add: nextState_def Let_def)
  show ?thesis
    unfolding Let_def
    using srt mem ext brk cont
    by (simp add: nxt transfer_shape [OF ne] settled_def transferAmount_def emit_def)
qed

theorem greedy_iteration_witness:
  "loopCount (initialState [person ''A'', person ''B''] [spent ''A'' 100]) < 100 \<and>
   balances (initialState [person ''A'', person ''B''] [spent ''A'' 100]) \<noteq> [] \<and>
   loop (initialState [person ''A'', person ''B''] [spent ''A'' 100]) =
     loop \<lparr>loopCount = 1,
           balances = [\<lparr>id_p = ''B'', name_p = ''B'', paid = 0, balance = 0\<rparr>,
                       \<lparr>id_p = ''A'', name_p = ''A'', paid = 100, balance = 0\<rparr>],
           results = [\<lparr>fromId = ''B'', toId = ''A'', amount = 50\<rparr>]\<rparr>"
  using greedy_iteration [of "initialState [person ''A'', person ''B''] [spent ''A'' 100]"]
  by (simp add: compute_defs person_def spent_def)

text \<open>
  C3, amended. For every input on which the loop leaves at \<^verbatim>\<open>break\<close> and whose initial
  balances are not all positive, the returned list has at most \<open>participantCount - 1\<close>
  settlements, for every rounding that leaves zero, rounded values and their doubles
  as they are, as the rounding of doubles does. In exact arithmetic the initial balances
  of participants with distinct ids are never all positive when no amount is negative.
  The counterexample has distinct ids, known payers and positive amounts that are
  doubles: rounding makes the initial balances 9/8 and 1/8, and the loop leaves at
  \<^verbatim>\<open>break\<close> with two settlements for two participants.
\<close>

theorem settlement_list_size:
  assumes "rounding rnd" and "convergedR rnd ps es" and "computeSettlementsR rnd ps es = Inr rs"
    and "(\<exists>e\<in>set (initialBalancesR rnd ps es). balance e \<le> 0) \<or>
         rnd = (\<lambda>x. x) \<and> uniqueIds ps \<and> nonNegativeAmounts es"
  shows "int (length rs) \<le> int (length ps) - 1"
proof -
  from assms(2) have ne: "ps \<noteq> []" by (simp add: convergedR_def)
  from assms(4) have "\<exists>e\<in>set (initialBalancesR rnd ps es). balance e \<le> 0"
  proof
    assume "rnd = (\<lambda>x. x) \<and> uniqueIds ps \<and> nonNegativeAmounts es"
    with exact_not_all_positive [OF ne, of es] show ?thesis
      by (simp add: exact_initialBalances)
  qed
  from settlement_countR [OF assms(1) this assms(3)] show ?thesis by simp
qed

theorem settlement_list_size_witness:
  "rounding round53 \<and>
   convergedR round53 [person ''A'', person ''B'', person ''C''] [spent ''A'' 90, spent ''C'' 10] \<and>
   computeSettlementsR round53 [person ''A'', person ''B'', person ''C''] [spent ''A'' 90, spent ''C'' 10] =
     Inr [\<lparr>fromId = ''B'', toId = ''A'', amount = 4691249611844267 / 140737488355328\<rparr>,
      \<lparr>fromId = ''C'', toId = ''A'', amount = 1641937364145493 / 70368744177664\<rparr>] \<and>
   list_ex (\<lambda>e. balance e \<le> 0) (initialBalancesR round53 [person ''A'', person ''B'', person ''C''] [spent ''A'' 90, spent ''C'' 10]) \<and>
   int (length [\<lparr>fromId = ''B'', toId = ''A'', amount = 4691249611844267 / 140737488355328\<rparr>,
      \<lparr>fromId = ''C'', toId = ''A'', amount = 1641937364145493 / 70368744177664\<rparr>])
     \<le> int (length [person ''A'', person ''B'', person ''C'']) - 1"
proof -
  have c: "convergedR round53 [person ''A'', person ''B'', person ''C''] [spent ''A'' 90, spent ''C'' 10]"
    and r: "computeSettlementsR round53 [person ''A'', person ''B'', person ''C''] [spent ''A'' 90, spent ''C'' 10] =
     Inr [\<lparr>fromId = ''B'', toId = ''A'', amount = 4691249611844267 / 140737488355328\<rparr>,
      \<lparr>fromId = ''C'', toId = ''A'', amount = 1641937364145493 / 70368744177664\<rparr>]"
    and b: "list_ex (\<lambda>e. balance e \<le> 0) (initialBalancesR round53 [person ''A'', person ''B'', person ''C''] [spent ''A'' 90, spent ''C'' 10])"
    by (simp_all add: input_defs convergedR_def computeR_defs loopR.simps round53_values)
  from b have "(\<exists>e\<in>set (initialBalancesR round53 [person ''A'', person ''B'', person ''C''] [spent ''A'' 90, spent ''C'' 10]). balance e \<le> 0) \<or>
      round53 = (\<lambda>x. x) \<and> uniqueIds [person ''A'', person ''B'', person ''C''] \<and> nonNegativeAmounts [spent ''A'' 90, spent ''C'' 10]"
    by (simp only: list_ex_iff) blast
  from settlement_list_size [OF rounding_round53 c r this] rounding_round53 c r b
  show ?thesis by (intro conjI)
qed

theorem settlement_list_size_counterexample:
  "uniqueIds [person ''A'', person ''B''] \<and>
   nonNegativeAmounts
     [spent ''B'' 1125899906842624,
      spent ''A'' (15 / 128), spent ''A'' (15 / 128), spent ''A'' (15 / 128), spent ''A'' (15 / 128),
      spent ''A'' (15 / 128), spent ''A'' (15 / 128), spent ''A'' (15 / 128), spent ''A'' (15 / 128),
      spent ''A'' (15 / 128), spent ''A'' (15 / 128),
      spent ''A'' (4503599627370495 / 4)] \<and>
   knownPayers [person ''A'', person ''B'']
     [spent ''B'' 1125899906842624,
      spent ''A'' (15 / 128), spent ''A'' (15 / 128), spent ''A'' (15 / 128), spent ''A'' (15 / 128),
      spent ''A'' (15 / 128), spent ''A'' (15 / 128), spent ''A'' (15 / 128), spent ''A'' (15 / 128),
      spent ''A'' (15 / 128), spent ''A'' (15 / 128),
      spent ''A'' (4503599627370495 / 4)] \<and>
   round53 1125899906842624 = 1125899906842624 \<and> round53 (15 / 128) = 15 / 128 \<and>
   round53 (4503599627370495 / 4) = 4503599627370495 / 4 \<and>
   map balance (initialBalancesR round53 [person ''A'', person ''B'']
     [spent ''B'' 1125899906842624,
      spent ''A'' (15 / 128), spent ''A'' (15 / 128), spent ''A'' (15 / 128), spent ''A'' (15 / 128),
      spent ''A'' (15 / 128), spent ''A'' (15 / 128), spent ''A'' (15 / 128), spent ''A'' (15 / 128),
      spent ''A'' (15 / 128), spent ''A'' (15 / 128),
      spent ''A'' (4503599627370495 / 4)]) = [9 / 8, 1 / 8] \<and>
   convergedR round53 [person ''A'', person ''B'']
     [spent ''B'' 1125899906842624,
      spent ''A'' (15 / 128), spent ''A'' (15 / 128), spent ''A'' (15 / 128), spent ''A'' (15 / 128),
      spent ''A'' (15 / 128), spent ''A'' (15 / 128), spent ''A'' (15 / 128), spent ''A'' (15 / 128),
      spent ''A'' (15 / 128), spent ''A'' (15 / 128),
      spent ''A'' (4503599627370495 / 4)] \<and>
   computeSettlementsR round53 [person ''A'', person ''B'']
     [spent ''B'' 1125899906842624,
      spent ''A'' (15 / 128), spent ''A'' (15 / 128), spent ''A'' (15 / 128), spent ''A'' (15 / 128),
      spent ''A'' (15 / 128), spent ''A'' (15 / 128), spent ''A'' (15 / 128), spent ''A'' (15 / 128),
      spent ''A'' (15 / 128), spent ''A'' (15 / 128),
      spent ''A'' (4503599627370495 / 4)] =
     Inr [\<lparr>fromId = ''B'', toId = ''A'', amount = 1 / 8\<rparr>,
          \<lparr>fromId = ''B'', toId = ''A'', amount = 1 / 4\<rparr>] \<and>
   \<not> int (length [\<lparr>fromId = ''B'', toId = ''A'', amount = 1 / 8\<rparr>,
                   \<lparr>fromId = ''B'', toId = ''A'', amount = 1 / 4 :: real\<rparr>])
       \<le> int (length [person ''A'', person ''B'']) - 1"
  by (simp add: input_defs convergedR_def computeR_defs loopR.simps round53_values)

text \<open>
  C4, amended. For a non-empty list of participants with pairwise distinct ids, as the
  data model has them, and expenses whose every payer is one of them, the balances of all
  participants sum to zero within the tolerance of the rounding: when the error of every
  rounded operation is at most the fraction \<open>u\<close> of its exact result and \<open>eta\<close> on top,
  the absolute value of the sum is at most \<open>2 ((1 + u)\<^sup>m - 1) + u (1 + u)\<^sup>m (3 + u)\<close>
  times the sum of the absolute amounts of the \<open>m\<close> expenses, plus
  \<open>m (1 + u)\<^sup>m (1 + u) (n + 1 + u) + n (2 + u)\<close> times \<open>eta\<close> for \<open>n\<close> participants;
  the sum is zero when nothing is rounded. With payers that are no participants the
  same bound holds for the sum of the balances plus the amounts of those payers. The
  counterexample: one participant and an expense of 90 by an unknown payer give the sum
  -90, beyond that tolerance.
\<close>

theorem balance_conservation:
  assumes "roundoff u eta rnd" and "ps \<noteq> []" and "uniqueIds ps"
  shows "\<bar>sum_list (map balance (initialBalancesR rnd ps es)) +
          sum_list (map amount_e (filter (\<lambda>e. payerId e \<notin> set (map id_p ps)) es))\<bar>
           \<le> (2 * ((1 + u) ^ length es - 1) + u * (1 + u) ^ length es * (3 + u)) *
               sum_list (map (\<lambda>e. \<bar>amount_e e\<bar>) es) +
              (real (length es) * (1 + u) ^ length es * (1 + u) * (real (length ps) + 1 + u) +
               real (length ps) * (2 + u)) * eta \<and>
         (knownPayers ps es \<longrightarrow>
            \<bar>sum_list (map balance (initialBalancesR rnd ps es))\<bar>
              \<le> (2 * ((1 + u) ^ length es - 1) + u * (1 + u) ^ length es * (3 + u)) *
                  sum_list (map (\<lambda>e. \<bar>amount_e e\<bar>) es) +
                 (real (length es) * (1 + u) ^ length es * (1 + u) * (real (length ps) + 1 + u) +
                  real (length ps) * (2 + u)) * eta) \<and>
         (knownPayers ps es \<and> u = 0 \<and> eta = 0 \<longrightarrow>
            sum_list (map balance (initialBalancesR rnd ps es)) = 0)"
proof -
  have d: "distinct (map id_p ps)" using assms(3) by (simp add: uniqueIds_def)
  note b = balance_sum_error [OF assms(1,2) d, of es]
  have k: "filter (\<lambda>e. payerId e \<notin> set (map id_p ps)) es = []" if "knownPayers ps es"
    using that by (auto simp: knownPayers_def list_all_iff filter_empty_conv)
  have "\<bar>sum_list (map balance (initialBalancesR rnd ps es))\<bar>
          \<le> (2 * ((1 + u) ^ length es - 1) + u * (1 + u) ^ length es * (3 + u)) *
              sum_list (map (\<lambda>e. \<bar>amount_e e\<bar>) es) +
             (real (length es) * (1 + u) ^ length es * (1 + u) * (real (length ps) + 1 + u) +
              real (length ps) * (2 + u)) * eta"
    if "knownPayers ps es"
    using b k [OF that] by simp
  moreover have "sum_list (map balance (initialBalancesR rnd ps es)) = 0"
    if "knownPayers ps es \<and> u = 0 \<and> eta = 0"
    using b k that by simp
  ultimately show ?thesis using b by blast
qed

theorem balance_conservation_witness:
  "roundoff (2 powr (- 53)) (2 powr (- 1075)) round53 \<and> [person ''A'', person ''B'', person ''C''] \<noteq> [] \<and>
   uniqueIds [person ''A'', person ''B'', person ''C''] \<and>
   knownPayers [person ''A'', person ''B'', person ''C''] [spent ''A'' 90, spent ''C'' 10] \<and>
   sum_list (map balance (initialBalancesR round53 [person ''A'', person ''B'', person ''C''] [spent ''A'' 90, spent ''C'' 10]))
     = - 1 / 140737488355328 \<and>
   \<bar>sum_list (map balance (initialBalancesR round53 [person ''A'', person ''B'', person ''C''] [spent ''A'' 90, spent ''C'' 10]))\<bar>
     \<le> (2 * ((1 + 2 powr (- 53)) ^ length [spent ''A'' 90, spent ''C'' 10] - 1) +
         2 powr (- 53) * (1 + 2 powr (- 53)) ^ length [spent ''A'' 90, spent ''C'' 10] * (3 + 2 powr (- 53))) *
        sum_list (map (\<lambda>e. \<bar>amount_e e\<bar>) [spent ''A'' 90, spent ''C'' 10]) +
        (real (length [spent ''A'' 90, spent ''C'' 10]) * (1 + 2 powr (- 53)) ^ length [spent ''A'' 90, spent ''C'' 10] * (1 + 2 powr (- 53)) *
           (real (length [person ''A'', person ''B'', person ''C'']) + 1 + 2 powr (- 53)) +
         real (length [person ''A'', person ''B'', person ''C'']) * (2 + 2 powr (- 53))) * 2 powr (- 1075)"
proof -
  have r: "roundoff (2 powr (- 53)) (2 powr (- 1075)) round53"
    by (rule roundoff_round53) simp
  have n: "[person ''A'', person ''B'', person ''C''] \<noteq> []" and i: "uniqueIds [person ''A'', person ''B'', person ''C'']"
    and k: "knownPayers [person ''A'', person ''B'', person ''C''] [spent ''A'' 90, spent ''C'' 10]"
    by (simp_all add: input_defs)
  have v: "sum_list (map balance (initialBalancesR round53 [person ''A'', person ''B'', person ''C''] [spent ''A'' 90, spent ''C'' 10]))
     = - 1 / 140737488355328"
    by (simp add: input_defs computeR_defs round53_values)
  from balance_conservation [OF r n i, of "[spent ''A'' 90, spent ''C'' 10]"] k
  have "\<bar>sum_list (map balance (initialBalancesR round53 [person ''A'', person ''B'', person ''C''] [spent ''A'' 90, spent ''C'' 10]))\<bar>
     \<le> (2 * ((1 + 2 powr (- 53)) ^ length [spent ''A'' 90, spent ''C'' 10] - 1) +
         2 powr (- 53) * (1 + 2 powr (- 53)) ^ length [spent ''A'' 90, spent ''C'' 10] * (3 + 2 powr (- 53))) *
        sum_list (map (\<lambda>e. \<bar>amount_e e\<bar>) [spent ''A'' 90, spent ''C'' 10]) +
        (real (length [spent ''A'' 90, spent ''C'' 10]) * (1 + 2 powr (- 53)) ^ length [spent ''A'' 90, spent ''C'' 10] * (1 + 2 powr (- 53)) *
           (real (length [person ''A'', person ''B'', person ''C'']) + 1 + 2 powr (- 53)) +
         real (length [person ''A'', person ''B'', person ''C'']) * (2 + 2 powr (- 53))) * 2 powr (- 1075)"
    by blast
  with r n i k v show ?thesis by (intro conjI)
qed

theorem balance_conservation_counterexample:
  "[person ''A''] \<noteq> [] \<and> uniqueIds [person ''A''] \<and>
   sum_list (map balance (initialBalances [person ''A''] [spent ''X'' 90])) = - 90 \<and>
   sum_list (map balance (initialBalancesR round53 [person ''A''] [spent ''X'' 90])) = - 90 \<and>
   \<not> \<bar>- 90 :: real\<bar>
       \<le> (2 * ((1 + 1 / 2 ^ 53) ^ length [spent ''X'' 90] - 1) +
           1 / 2 ^ 53 * (1 + 1 / 2 ^ 53) ^ length [spent ''X'' 90] * (3 + 1 / 2 ^ 53)) *
          sum_list (map (\<lambda>e. \<bar>amount_e e\<bar>) [spent ''X'' 90]) +
          (real (length [spent ''X'' 90]) * (1 + 1 / 2 ^ 53) ^ length [spent ''X'' 90] * (1 + 1 / 2 ^ 53) *
             (real (length [person ''A'']) + 1 + 1 / 2 ^ 53) +
           real (length [person ''A'']) * (2 + 1 / 2 ^ 53)) * (1 / 2 ^ 1075)"
  by (simp add: input_defs compute_defs computeR_defs round53_values)




text \<open>
  C6. Three participants with the ids of \<open>B\<close> and \<open>C\<close> different from that of \<open>A\<close>, one
  expense of 90 paid by \<open>A\<close>: the result is the transfer of 30 from \<open>B\<close> to \<open>A\<close> followed
  by the transfer of 30 from \<open>C\<close> to \<open>A\<close>.
\<close>

theorem three_party:
  assumes "id_p A \<noteq> id_p B" and "id_p A \<noteq> id_p C"
    and "payerId e = id_p A" and "amount_e e = 90"
  shows "computeSettlements [A, B, C] [e] =
           Inr [\<lparr>fromId = id_p B, toId = id_p A, amount = 30\<rparr>,
                \<lparr>fromId = id_p C, toId = id_p A, amount = 30\<rparr>]"
  using assms by (simp add: compute_defs loop.simps)

theorem three_party_witness:
  "id_p (person ''A'') \<noteq> id_p (person ''B'') \<and> id_p (person ''A'') \<noteq> id_p (person ''C'') \<and>
   payerId (spent ''A'' 90) = id_p (person ''A'') \<and> amount_e (spent ''A'' 90) = 90 \<and>
   computeSettlements [person ''A'', person ''B'', person ''C''] [spent ''A'' 90] =
     Inr [\<lparr>fromId = ''B'', toId = ''A'', amount = 30\<rparr>, \<lparr>fromId = ''C'', toId = ''A'', amount = 30\<rparr>]"
  using three_party [of "person ''A''" "person ''B''" "person ''C''" "spent ''A'' 90"]
  by (simp add: person_def spent_def)

text \<open>
  C7. An expense whose payer is no participant adds its amount to \<open>totalSpent\<close>, and
  its share to the average, leaves the paid sum of every participant as it is without
  that expense, and the computation returns a list.
\<close>

theorem unknown_payer:
  assumes "payerId e \<notin> set (map id_p ps)"
  shows "totalSpent (es1 @ e # es2) = totalSpent (es1 @ es2) + amount_e e \<and>
         average ps (es1 @ e # es2) = average ps (es1 @ es2) + amount_e e / real (length ps) \<and>
         (\<forall>p\<in>set ps. paidBy (es1 @ e # es2) (id_p p) = paidBy (es1 @ es2) (id_p p)) \<and>
         (\<exists>rs. computeSettlements ps (es1 @ e # es2) = Inr rs)"
proof (intro conjI ballI)
  show "totalSpent (es1 @ e # es2) = totalSpent (es1 @ es2) + amount_e e"
    by (simp add: totalSpent_sum)
next
  show "average ps (es1 @ e # es2) = average ps (es1 @ es2) + amount_e e / real (length ps)"
    by (simp add: average_def totalSpent_sum add_divide_distrib)
next
  fix p assume "p \<in> set ps"
  with assms have "payerId e \<noteq> id_p p" by auto
  then show "paidBy (es1 @ e # es2) (id_p p) = paidBy (es1 @ es2) (id_p p)"
    by (simp add: paidBy_sum)
next
  show "\<exists>rs. computeSettlements ps (es1 @ e # es2) = Inr rs"
    by (rule computeSettlements_Inr)
qed

theorem unknown_payer_witness:
  "payerId (spent ''X'' 7) \<notin> set (map id_p [person ''A'', person ''B'']) \<and>
   totalSpent ([spent ''A'' 20] @ spent ''X'' 7 # []) = totalSpent ([spent ''A'' 20] @ []) + 7 \<and>
   average [person ''A'', person ''B''] ([spent ''A'' 20] @ spent ''X'' 7 # []) =
     average [person ''A'', person ''B''] ([spent ''A'' 20] @ []) + 7 / 2 \<and>
   paidBy ([spent ''A'' 20] @ spent ''X'' 7 # []) ''A'' = paidBy ([spent ''A'' 20] @ []) ''A'' \<and>
   (\<exists>rs. computeSettlements [person ''A'', person ''B''] ([spent ''A'' 20] @ spent ''X'' 7 # []) = Inr rs)"
  using unknown_payer [of "spent ''X'' 7" "[person ''A'', person ''B'']" "[spent ''A'' 20]" "[]"]
  by (simp add: person_def spent_def)

text \<open>
  C8. Without participants the result is the empty list, whatever the expenses. Without
  expenses every balance is zero and the result is the empty list, whatever the
  participants.
\<close>

theorem empty_inputs:
  "computeSettlements [] es = Inr [] \<and>
   (\<forall>b\<in>set (initialBalances ps []). balance b = 0) \<and>
   computeSettlements ps [] = Inr []"
proof (intro conjI ballI)
  show "computeSettlements [] es = Inr []"
    by (simp add: computeSettlements_def)
next
  fix b assume "b \<in> set (initialBalances ps [])"
  then show "balance b = 0" by (rule balances_no_expenses)
next
  show "computeSettlements ps [] = Inr []"
  proof (cases "ps = []")
    case True
    then show ?thesis by (simp add: computeSettlements_def)
  next
    case False
    let ?bs = "sort_key balance (initialBalances ps [])"
    have ne: "?bs \<noteq> []" using False by simp
    have "balance (debtor ?bs) = 0" "balance (creditor ?bs) = 0"
      using debtor_in_set [OF ne] creditor_in_set [OF ne]
      by (simp_all add: balances_no_expenses)
    then have "settled ?bs" by (simp add: settled_def)
    with ne have "loop (initialState ps []) = Inr ((initialState ps [])\<lparr>balances := ?bs\<rparr>)"
      by (subst loop.simps) (simp add: Let_def)
    with False show ?thesis by (simp add: computeSettlements_def)
  qed
qed

theorem empty_inputs_witness:
  "computeSettlements [] [spent ''A'' 5] = Inr [] \<and>
   list_all (\<lambda>b. balance b = 0) (initialBalances [person ''A'', person ''B''] []) \<and>
   computeSettlements [person ''A'', person ''B''] [] = Inr []"
  using empty_inputs [of "[spent ''A'' 5]" "[person ''A'', person ''B'']"]
  by (simp add: list_all_iff)

text \<open>
  C9. On every input the computation returns a list. When there is a participant the
  loop returns a state whose counter is the number of passes that got beyond the
  \<^verbatim>\<open>break\<close> test; that number is at most 100, and so is the number of passes begun,
  which counts one more when the loop left at \<^verbatim>\<open>break\<close>. From initial balances that can
  never settle the loop returns as well, after exactly 100 passes.
\<close>

theorem loop_bounded:
  "(\<exists>rs. computeSettlements ps es = Inr rs) \<and>
   (ps \<noteq> [] \<longrightarrow>
      (\<exists>st. loop (initialState ps es) = Inr st \<and>
            loopCount st = length (iterations (initialState ps es)) \<and>
            loopCount st \<le> 100 \<and>
            length (iterations (initialState ps es)) + (if loopCount st < 100 then 1 else 0) \<le> 100 \<and>
            (stuck (initialBalances ps es) \<longrightarrow> loopCount st = 100)))"
proof (intro conjI impI)
  show "\<exists>rs. computeSettlements ps es = Inr rs" by (rule computeSettlements_Inr)
next
  assume "ps \<noteq> []"
  then obtain st where st: "loop (initialState ps es) = Inr st"
    using loop_Inr [of "initialState ps es"] by auto
  have "loopCount st = length (iterations (initialState ps es))"
    using loop_counter [OF st] by simp
  moreover have "loopCount st \<le> 100"
    using loop_cap [OF st] by simp
  moreover have "loopCount st = 100" if "stuck (initialBalances ps es)"
    using stuck_runs_to_cap [OF st] that by simp
  ultimately show "\<exists>st. loop (initialState ps es) = Inr st \<and>
            loopCount st = length (iterations (initialState ps es)) \<and>
            loopCount st \<le> 100 \<and>
            length (iterations (initialState ps es)) + (if loopCount st < 100 then 1 else 0) \<le> 100 \<and>
            (stuck (initialBalances ps es) \<longrightarrow> loopCount st = 100)"
    using st by auto
qed

theorem loop_bounded_witness:
  "[person ''A''] \<noteq> [] \<and> stuck (initialBalances [person ''A''] [spent ''X'' 90]) \<and>
   (\<exists>st. loop (initialState [person ''A''] [spent ''X'' 90]) = Inr st \<and>
         loopCount st = length (iterations (initialState [person ''A''] [spent ''X'' 90])) \<and>
         loopCount st = 100)"
proof -
  have "stuck (initialBalances [person ''A''] [spent ''X'' 90])"
    by (simp add: stuck_def compute_defs input_defs)
  with loop_bounded [of "[person ''A'']" "[spent ''X'' 90]"] show ?thesis
    by auto
qed

text \<open>
  C10. Both ids of every returned settlement are ids of participants. With pairwise
  distinct ids and more or less than one participant, \<open>fromId\<close> and \<open>toId\<close> differ. A
  single participant gets the empty list when no amount is negative. So for distinct
  ids and amounts that are not negative, as the data model has them, \<open>fromId\<close> and
  \<open>toId\<close> of every returned settlement differ.
\<close>

theorem settlement_parties:
  assumes "computeSettlements ps es = Inr rs"
  shows "(\<forall>s\<in>set rs. fromId s \<in> set (map id_p ps) \<and> toId s \<in> set (map id_p ps)) \<and>
         (uniqueIds ps \<and> length ps \<noteq> 1 \<longrightarrow> (\<forall>s\<in>set rs. fromId s \<noteq> toId s)) \<and>
         (length ps = 1 \<and> nonNegativeAmounts es \<longrightarrow> rs = []) \<and>
         (uniqueIds ps \<and> nonNegativeAmounts es \<longrightarrow> (\<forall>s\<in>set rs. fromId s \<noteq> toId s))"
proof -
  have pass: "\<exists>it\<in>set (iterations (initialState ps es)). s \<in> set (emitted it)"
    if "s \<in> set rs" for s
    using that computeSettlements_results [OF assms] by auto
  have facts: "fromId s = id_p (debtor (balances it)) \<and> toId s = id_p (creditor (balances it)) \<and>
      balances it \<noteq> [] \<and> mset (map id_p (balances it)) = mset (map id_p ps)"
    if "it \<in> set (iterations (initialState ps es))" and "s \<in> set (emitted it)" for it s
  proof -
    from that(1) have "it \<in> set (iterationsR (\<lambda>x. x) (initialStateR (\<lambda>x. x) ps es))"
      by (simp add: exact_iterations exact_initialState)
    from pushing_pass [OF this that(2)] show ?thesis by auto
  qed
  have members: "fromId s \<in> set (map id_p ps) \<and> toId s \<in> set (map id_p ps)"
    if "s \<in> set rs" for s
  proof -
    from pass [OF that] obtain it where it: "it \<in> set (iterations (initialState ps es))"
      and s: "s \<in> set (emitted it)" by blast
    from facts [OF it s] have f: "fromId s = id_p (debtor (balances it))"
      and t: "toId s = id_p (creditor (balances it))" and ne: "balances it \<noteq> []"
      and ids: "mset (map id_p (balances it)) = mset (map id_p ps)"
      by simp_all
    from ids have "set (map id_p (balances it)) = set (map id_p ps)"
      by (rule mset_eq_setD)
    then show ?thesis
      using debtor_in_set [OF ne] creditor_in_set [OF ne] unfolding f t by auto
  qed
  have differ: "fromId s \<noteq> toId s"
    if "uniqueIds ps" and "length ps \<noteq> 1" and "s \<in> set rs" for s
  proof -
    from pass [OF that(3)] obtain it where it: "it \<in> set (iterations (initialState ps es))"
      and s: "s \<in> set (emitted it)" by blast
    from facts [OF it s] have f: "fromId s = id_p (debtor (balances it))"
      and t: "toId s = id_p (creditor (balances it))" and ne: "balances it \<noteq> []"
      and ids: "mset (map id_p (balances it)) = mset (map id_p ps)"
      by simp_all
    from ids that(1) have "distinct (map id_p (balances it))"
      by (metis uniqueIds_def mset_eq_imp_distinct_iff)
    moreover from ids have "length (map id_p (balances it)) = length (map id_p ps)"
      by (rule mset_eq_length)
    with that(2) have "length (balances it) \<noteq> 1" by simp
    ultimately show ?thesis
      using distinct_ends [OF _ ne] by (simp add: f t)
  qed
  have single: "rs = []" if one: "length ps = 1" and nn: "nonNegativeAmounts es"
  proof (rule ccontr)
    assume "rs \<noteq> []"
    then obtain s where "s \<in> set rs" by (cases rs) auto
    from pass [OF this] obtain it where it: "it \<in> set (iterations (initialState ps es))"
      and s: "s \<in> set (emitted it)" by blast
    from one have ne: "ps \<noteq> []" and u: "uniqueIds ps"
      by (cases ps; simp add: uniqueIds_def)+
    from emission_facts [OF ne u nn it s]
    have "length (balances it) \<noteq> 1"
      and "mset (map id_p (balances it)) = mset (map id_p ps)"
      by simp_all
    moreover from this(2) have "length (map id_p (balances it)) = length (map id_p ps)"
      by (rule mset_eq_length)
    ultimately show False using one by simp
  qed
  have "fromId s \<noteq> toId s"
    if "uniqueIds ps" and "nonNegativeAmounts es" and "s \<in> set rs" for s
  proof (cases "length ps = 1")
    case True
    from single [OF True that(2)] that(3) show ?thesis by simp
  next
    case False
    from differ [OF that(1) False that(3)] show ?thesis .
  qed
  with members differ single show ?thesis by blast
qed

theorem settlement_parties_witness:
  "computeSettlements [person ''A'', person ''B''] [spent ''A'' 100] =
     Inr [\<lparr>fromId = ''B'', toId = ''A'', amount = 50\<rparr>] \<and>
   uniqueIds [person ''A'', person ''B''] \<and> nonNegativeAmounts [spent ''A'' 100] \<and>
   length [person ''A'', person ''B''] \<noteq> 1 \<and>
   list_all (\<lambda>s. fromId s \<noteq> toId s \<and> fromId s \<in> set (map id_p [person ''A'', person ''B'']) \<and>
                 toId s \<in> set (map id_p [person ''A'', person ''B'']))
     [\<lparr>fromId = ''B'', toId = ''A'', amount = 50\<rparr>] \<and>
   computeSettlements [person ''A''] [spent ''A'' 50, spent ''X'' 7] = Inr [] \<and>
   uniqueIds [person ''A''] \<and> nonNegativeAmounts [spent ''A'' 50, spent ''X'' 7] \<and>
   length [person ''A''] = 1"
  using settlement_parties [of "[person ''A'', person ''B'']" "[spent ''A'' 100]"
      "[\<lparr>fromId = ''B'', toId = ''A'', amount = 50\<rparr>]"]
    settlement_parties [of "[person ''A'']" "[spent ''A'' 50, spent ''X'' 7]" "[]"]
  by (simp add: input_defs compute_defs loop.simps)

end
